theory Spec2Isabelle
  imports Main "HOL-Library.Word" "HOL-Library.Monad_Syntax"
begin

unbundle bit_operations_syntax

section \<open>The byte-budgeted reader of protocol/decode.go\<close>

text \<open>
  Conventions of the embedding.
  \<^item> Go's \<open>int\<close> is taken as the 64-bit integer of the usual platforms; the budget
    \<open>remain\<close> is an \<open>int\<close> of HOL, since the code only ever subtracts from it amounts it
    has compared with it. A conversion \<open>int(x)\<close> of a \<open>uint64\<close> is \<open>sint x\<close>.
  \<^item> Every function that can run into a Go runtime panic returns an \<open>option\<close>:
    \<open>None\<close> is the panic, \<open>Some\<close> the normal return (the result paired with the
    decoder state after the call).
  \<^item> The underlying \<open>io.Reader\<close> is the list of bytes it still holds, together with a
    flag telling whether it also has the method \<open>Discard\<close> (as \<open>bufio.Reader\<close> has and
    \<open>bytes.Reader\<close> has not). A \<open>Read\<close> of the source hands out what it has, up to the
    size asked for, and \<open>io.EOF\<close> once it is empty.
  \<^item> A checksum table is represented by the update function \<open>crc32.Update\<close> computes
    with it.
\<close>

type_synonym byte = "8 word"

datatype error =
    EOF
  | ErrUnexpectedEOF
  | ErrVarInt
  | ErrUnsignedVarInt
  | ErrNegativeCount
  | ErrShortWrite
  | ErrWriter

record decoder =
  reader :: "byte list"
  discarder :: bool
  remain :: int
  buffer :: "byte list"
  err :: "error option"
  table :: "(32 word \<Rightarrow> byte list \<Rightarrow> 32 word) option"
  crc32 :: "32 word"

text \<open>\<open>io.Writer\<close>: what was written so far, and how many more bytes the writer
  accepts before it fails (\<open>None\<close>: it never fails).\<close>

record writer =
  written :: "byte list"
  room :: "nat option"

definition Reset :: "byte list \<Rightarrow> bool \<Rightarrow> int \<Rightarrow> decoder \<Rightarrow> decoder" where
  "Reset r disc n d =
     d\<lparr>reader := r, discarder := disc, remain := n, buffer := replicate 8 0,
       err := None, table := None, crc32 := 0\<rparr>"

text \<open>The source's own \<open>Read\<close> into a slice of length \<open>k\<close>, and its \<open>Discard\<close>.\<close>

definition reader_Read :: "nat \<Rightarrow> byte list \<Rightarrow> byte list \<times> error option" where
  "reader_Read k src = (if src = [] then ([], Some EOF) else (take k src, None))"

definition reader_Discard :: "int \<Rightarrow> byte list \<Rightarrow> nat \<times> error option" where
  "reader_Discard n src =
     (if n < 0 then (0, Some ErrNegativeCount)
      else if nat n \<le> length src then (nat n, None)
      else (length src, Some EOF))"

definition writer_Write :: "byte list \<Rightarrow> writer \<Rightarrow> (nat \<times> error option) \<times> writer" where
  "writer_Write p w =
     (case room w of
        None \<Rightarrow> ((length p, None), w\<lparr>written := written w @ p\<rparr>)
      | Some r \<Rightarrow>
          if length p \<le> r
          then ((length p, None), w\<lparr>written := written w @ p, room := Some (r - length p)\<rparr>)
          else ((r, Some ErrWriter), w\<lparr>written := written w @ take r p, room := Some 0\<rparr>))"

text \<open>\<open>ioutil.Discard\<close>.\<close>

definition Discard_writer :: writer where
  "Discard_writer = \<lparr>written = [], room = None\<rparr>"

text \<open>\<open>(*decoder).Read\<close> into a slice of length \<open>k\<close>. The slice expression
  \<open>b[:d.remain]\<close> panics when the budget is negative.\<close>

definition Read :: "nat \<Rightarrow> decoder \<Rightarrow> ((byte list \<times> error option) \<times> decoder) option" where
  "Read k d =
     (if err d \<noteq> None then Some (([], err d), d)
      else if remain d = 0 then Some (([], Some EOF), d)
      else if remain d < 0 then None
      else
        (let k' = (if int k > remain d then nat (remain d) else k);
             (bs, e) = reader_Read k' (reader d);
             c = (if bs \<noteq> [] then (case table d of None \<Rightarrow> crc32 d | Some upd \<Rightarrow> upd (crc32 d) bs)
                  else crc32 d)
         in Some ((bs, e),
              d\<lparr>reader := drop (length bs) (reader d), crc32 := c,
                remain := remain d - int (length bs)\<rparr>)))"

definition done_dec :: "decoder \<Rightarrow> bool" where
  "done_dec d = (remain d = 0 \<or> err d \<noteq> None)"

definition setCRC :: "(32 word \<Rightarrow> byte list \<Rightarrow> 32 word) \<Rightarrow> decoder \<Rightarrow> decoder" where
  "setCRC t d = d\<lparr>table := Some t, crc32 := 0\<rparr>"

text \<open>\<open>io.ReadAtLeast\<close>: the loop \<open>for n < min && err == nil\<close>, with the bytes read so
  far in \<open>acc\<close>.\<close>

function ReadAtLeast_loop ::
  "nat \<Rightarrow> byte list \<Rightarrow> decoder \<Rightarrow> ((byte list \<times> error option) \<times> decoder) option" where
  "ReadAtLeast_loop m acc d =
     (if length acc < m then
        (case Read (m - length acc) d of
           None \<Rightarrow> None
         | Some ((bs, e), d') \<Rightarrow>
             if e = None then ReadAtLeast_loop m (acc @ bs) d' else Some ((acc @ bs, e), d'))
      else Some ((acc, None), d))"
  by pat_completeness auto
termination
  by (relation "measure (\<lambda>(m, acc, d). m - length acc)")
     (auto simp: Read_def reader_Read_def Let_def min_def length_greater_0_conv [symmetric]
           simp del: length_greater_0_conv split: if_splits)

declare ReadAtLeast_loop.simps [simp del]

text \<open>\<open>io.ReadFull\<close> into a slice of length \<open>k\<close>.\<close>

definition io_ReadFull :: "nat \<Rightarrow> decoder \<Rightarrow> ((byte list \<times> error option) \<times> decoder) option" where
  "io_ReadFull k d =
     do {
       ((bs, e), d') \<leftarrow> ReadAtLeast_loop k [] d;
       Some ((bs, if k \<le> length bs then None
                  else if bs \<noteq> [] \<and> e = Some EOF then Some ErrUnexpectedEOF
                  else e), d')
     }"

text \<open>\<open>io.Copy\<close> from the decoder into a writer, through a buffer of 32 KiB: the
  number of bytes written, the error and the writer afterwards.\<close>

function io_Copy_loop ::
  "nat \<Rightarrow> writer \<Rightarrow> decoder \<Rightarrow> ((nat \<times> error option \<times> writer) \<times> decoder) option" where
  "io_Copy_loop c w d =
     (case Read 32768 d of
        None \<Rightarrow> None
      | Some ((bs, er), d') \<Rightarrow>
          (let ((nw, ew), w') = (if bs \<noteq> [] then writer_Write bs w else ((0, None), w));
               c' = c + nw
           in if bs \<noteq> [] \<and> ew \<noteq> None then Some ((c', ew, w'), d')
              else if bs \<noteq> [] \<and> length bs \<noteq> nw then Some ((c', Some ErrShortWrite, w'), d')
              else if er \<noteq> None then Some ((c', if er = Some EOF then None else er, w'), d')
              else io_Copy_loop c' w' d'))"
  by pat_completeness auto
termination
  by (relation "measure (\<lambda>(c, w, d). length (reader d))")
     (auto simp: Read_def reader_Read_def Let_def min_def length_greater_0_conv [symmetric]
           simp del: length_greater_0_conv split: if_splits)

declare io_Copy_loop.simps [simp del]

definition io_Copy ::
  "writer \<Rightarrow> decoder \<Rightarrow> ((nat \<times> error option \<times> writer) \<times> decoder) option" where
  "io_Copy w d = io_Copy_loop 0 w d"

text \<open>Reading never touches the sticky error slot; the recursion of \<open>setError\<close>
  through \<open>discard\<close> ends for that reason.\<close>

lemma Read_err: "Read k d = Some (r, d') \<Longrightarrow> err d' = err d"
  by (auto simp: Read_def Let_def split: if_splits prod.splits)

lemma io_Copy_loop_err: "io_Copy_loop c w d = Some (r, d') \<Longrightarrow> err d' = err d"
proof (induction c w d arbitrary: r d' rule: io_Copy_loop.induct)
  case (1 c w d)
  from "1.prems" obtain bs er d1 where rd: "Read 32768 d = Some ((bs, er), d1)"
    by (subst (asm) io_Copy_loop.simps) (auto split: option.splits)
  obtain nw ew w' where wr:
    "(if bs \<noteq> [] then writer_Write bs w else ((0, None), w)) = ((nw, ew), w')"
    by (metis prod.exhaust)
  have e1: "err d1 = err d" using rd by (rule Read_err)
  show ?case
  proof (cases "(bs \<noteq> [] \<and> ew \<noteq> None) \<or> (bs \<noteq> [] \<and> length bs \<noteq> nw) \<or> er \<noteq> None")
    case True
    with "1.prems" rd wr have "d' = d1"
      by (subst (asm) io_Copy_loop.simps) (auto simp: Let_def split: if_splits)
    with e1 show ?thesis by simp
  next
    case False
    with "1.prems" rd wr have rec: "io_Copy_loop (c + nw) w' d1 = Some (r, d')"
      by (subst (asm) io_Copy_loop.simps) (auto simp: Let_def split: if_splits)
    have "err d' = err d1"
      using False by (intro "1.IH" [OF rd refl refl refl wr [symmetric] refl refl _ _ _ rec]) auto
    with e1 show ?thesis by simp
  qed
qed

lemma io_Copy_err: "io_Copy w d = Some (r, d') \<Longrightarrow> err d' = err d"
  unfolding io_Copy_def by (rule io_Copy_loop_err)

text \<open>\<open>setError\<close>, \<open>discardAll\<close> and \<open>discard\<close> call one another. A source with
  \<open>Discard\<close> skips the bytes itself; any other source is drained by
  \<open>io.Copy(ioutil.Discard, d)\<close>, which reads through \<open>(*decoder).Read\<close>.\<close>

function setError :: "error option \<Rightarrow> decoder \<Rightarrow> decoder option"
  and discardAll :: "decoder \<Rightarrow> decoder option"
  and discard :: "int \<Rightarrow> decoder \<Rightarrow> decoder option" where
  "setError e d =
     (if err d = None \<and> e \<noteq> None then discardAll (d\<lparr>err := e\<rparr>) else Some d)"
| "discardAll d = discard (remain d) d"
| "discard n d =
     (let n' = (if n > remain d then remain d else n) in
      if discarder d then
        (let (k, e) = reader_Discard n' (reader d) in
         setError e (d\<lparr>reader := drop k (reader d), remain := remain d - int k\<rparr>))
      else
        (case io_Copy Discard_writer d of
           None \<Rightarrow> None
         | Some ((c, e, w), d') \<Rightarrow> setError e d'))"
  by pat_completeness auto
termination
  by (relation "measure (\<lambda>x. case x of
          Inl (e, d) \<Rightarrow> (if err d = None then 3 else 0)
        | Inr (Inl d) \<Rightarrow> (if err d = None then 5 else 2)
        | Inr (Inr (n, d)) \<Rightarrow> (if err d = None then 4 else 1))")
     (auto dest: io_Copy_err)

declare setError.simps [simp del] discardAll.simps [simp del] discard.simps [simp del]

text \<open>\<open>read\<close>: \<open>make([]byte, n)\<close> panics on a negative length.\<close>

definition read :: "int \<Rightarrow> decoder \<Rightarrow> (byte list \<times> decoder) option" where
  "read n d =
     (if n < 0 then None
      else do {
        ((bs, e), d1) \<leftarrow> io_ReadFull (nat n) d;
        d2 \<leftarrow> setError e d1;
        Some (bs, d2)
      })"

text \<open>\<open>writeTo\<close>. The decoder \<open>io.Copy\<close> reads from is the one after
  \<open>if n < limit { d.remain = n }\<close>.\<close>

definition writeTo_bound :: "int \<Rightarrow> decoder \<Rightarrow> decoder" where
  "writeTo_bound n d = (if n < remain d then d\<lparr>remain := n\<rparr> else d)"

definition writeTo :: "writer \<Rightarrow> int \<Rightarrow> decoder \<Rightarrow> (writer \<times> decoder) option" where
  "writeTo w n d =
     (let limit = remain d;
          d0 = writeTo_bound n d
      in do {
        ((c, e, w'), d1) \<leftarrow> io_Copy w d0;
        d2 \<leftarrow> setError (if int c < n \<and> e = None then Some ErrUnexpectedEOF else e)
                (d1\<lparr>remain := limit - int c\<rparr>);
        Some (w', d2)
      })"

text \<open>\<open>readFull\<close> is only ever called on a prefix \<open>d.buffer[:k]\<close> of the scratch
  buffer: the bytes read overwrite the front of it.\<close>

definition readFull :: "nat \<Rightarrow> decoder \<Rightarrow> (bool \<times> decoder) option" where
  "readFull k d =
     do {
       ((bs, e), d1) \<leftarrow> io_ReadFull k d;
       d2 \<leftarrow> setError e (d1\<lparr>buffer := bs @ drop (length bs) (buffer d1)\<rparr>);
       Some (length bs = k, d2)
     }"

text \<open>The big-endian readers of \<open>encoding/binary\<close>, on a slice long enough.\<close>

definition Uint16 :: "byte list \<Rightarrow> 16 word" where
  "Uint16 b = ucast (b ! 1) OR push_bit 8 (ucast (b ! 0))"

definition Uint32 :: "byte list \<Rightarrow> 32 word" where
  "Uint32 b = ucast (b ! 3) OR push_bit 8 (ucast (b ! 2)) OR push_bit 16 (ucast (b ! 1))
     OR push_bit 24 (ucast (b ! 0))"

definition Uint64 :: "byte list \<Rightarrow> 64 word" where
  "Uint64 b = ucast (b ! 7) OR push_bit 8 (ucast (b ! 6)) OR push_bit 16 (ucast (b ! 5))
     OR push_bit 24 (ucast (b ! 4)) OR push_bit 32 (ucast (b ! 3)) OR push_bit 40 (ucast (b ! 2))
     OR push_bit 48 (ucast (b ! 1)) OR push_bit 56 (ucast (b ! 0))"

definition readByte :: "decoder \<Rightarrow> (byte \<times> decoder) option" where
  "readByte d = do { (ok, d') \<leftarrow> readFull 1 d; Some (if ok then buffer d' ! 0 else 0, d') }"

definition ReadByte :: "decoder \<Rightarrow> ((byte \<times> error option) \<times> decoder) option" where
  "ReadByte d = do { (c, d') \<leftarrow> readByte d; Some ((c, err d'), d') }"

definition readBool :: "decoder \<Rightarrow> (bool \<times> decoder) option" where
  "readBool d = do { (b, d') \<leftarrow> readByte d; Some (b \<noteq> 0, d') }"

definition readInt8 :: "decoder \<Rightarrow> (8 word \<times> decoder) option" where
  "readInt8 d = do { (ok, d') \<leftarrow> readFull 1 d; Some (if ok then buffer d' ! 0 else 0, d') }"

definition readInt16 :: "decoder \<Rightarrow> (16 word \<times> decoder) option" where
  "readInt16 d =
     do { (ok, d') \<leftarrow> readFull 2 d; Some (if ok then Uint16 (take 2 (buffer d')) else 0, d') }"

definition readInt32 :: "decoder \<Rightarrow> (32 word \<times> decoder) option" where
  "readInt32 d =
     do { (ok, d') \<leftarrow> readFull 4 d; Some (if ok then Uint32 (take 4 (buffer d')) else 0, d') }"

definition readInt64 :: "decoder \<Rightarrow> (64 word \<times> decoder) option" where
  "readInt64 d =
     do { (ok, d') \<leftarrow> readFull 8 d; Some (if ok then Uint64 (take 8 (buffer d')) else 0, d') }"

text \<open>The variable-length integers. The loop \<open>for n > 0\<close> runs at most
  \<open>min(11, d.remain)\<close> times; a shift by 64 or more gives 0 in Go as \<open>push_bit\<close> does
  on a word.\<close>

fun readVarInt_loop :: "nat \<Rightarrow> 64 word \<Rightarrow> nat \<Rightarrow> decoder \<Rightarrow> (64 word \<times> decoder) option" where
  "readVarInt_loop 0 x s d =
     do { d' \<leftarrow> setError (Some ErrVarInt) d; Some (0, d') }"
| "readVarInt_loop (Suc n) x s d =
     do {
       (b, d1) \<leftarrow> readByte d;
       if b AND 0x80 = 0
       then (let x' = x OR push_bit s (ucast b) in Some (drop_bit 1 x' XOR - (x' AND 1), d1))
       else readVarInt_loop n (x OR push_bit s (ucast (b AND 0x7f))) (s + 7) d1
     }"

definition readVarInt :: "decoder \<Rightarrow> (64 word \<times> decoder) option" where
  "readVarInt d = readVarInt_loop (nat (if 11 > remain d then remain d else 11)) 0 0 d"

fun readUnsignedVarInt_loop ::
  "nat \<Rightarrow> 64 word \<Rightarrow> nat \<Rightarrow> decoder \<Rightarrow> (64 word \<times> decoder) option" where
  "readUnsignedVarInt_loop 0 x s d =
     do { d' \<leftarrow> setError (Some ErrUnsignedVarInt) d; Some (0, d') }"
| "readUnsignedVarInt_loop (Suc n) x s d =
     do {
       (b, d1) \<leftarrow> readByte d;
       if b AND 0x80 = 0
       then Some (x OR push_bit s (ucast b), d1)
       else readUnsignedVarInt_loop n (x OR push_bit s (ucast (b AND 0x7f))) (s + 7) d1
     }"

definition readUnsignedVarInt :: "decoder \<Rightarrow> (64 word \<times> decoder) option" where
  "readUnsignedVarInt d =
     readUnsignedVarInt_loop (nat (if 11 > remain d then remain d else 11)) 0 0 d"

text \<open>Strings and byte sequences. A Go string is its bytes; a \<open>[]byte\<close> is \<open>None\<close>
  when it is \<open>nil\<close>.\<close>

definition readString :: "decoder \<Rightarrow> (byte list \<times> decoder) option" where
  "readString d =
     do { (n, d1) \<leftarrow> readInt16 d; if n <s 0 then Some ([], d1) else read (sint n) d1 }"

definition readVarString :: "decoder \<Rightarrow> (byte list \<times> decoder) option" where
  "readVarString d =
     do { (n, d1) \<leftarrow> readVarInt d; if n <s 0 then Some ([], d1) else read (sint n) d1 }"

definition readCompactString :: "decoder \<Rightarrow> (byte list \<times> decoder) option" where
  "readCompactString d =
     do { (n, d1) \<leftarrow> readUnsignedVarInt d;
          if n < 1 then Some ([], d1) else read (sint (n - 1)) d1 }"

definition readBytes :: "decoder \<Rightarrow> (byte list option \<times> decoder) option" where
  "readBytes d =
     do { (n, d1) \<leftarrow> readInt32 d;
          if n <s 0 then Some (None, d1)
          else do { (bs, d2) \<leftarrow> read (sint n) d1; Some (Some bs, d2) } }"

definition readVarBytes :: "decoder \<Rightarrow> (byte list option \<times> decoder) option" where
  "readVarBytes d =
     do { (n, d1) \<leftarrow> readVarInt d;
          if n <s 0 then Some (None, d1)
          else do { (bs, d2) \<leftarrow> read (sint n) d1; Some (Some bs, d2) } }"

definition readCompactBytes :: "decoder \<Rightarrow> (byte list option \<times> decoder) option" where
  "readCompactBytes d =
     do { (n, d1) \<leftarrow> readUnsignedVarInt d;
          if n < 1 then Some (None, d1)
          else do { (bs, d2) \<leftarrow> read (sint (n - 1)) d1; Some (Some bs, d2) } }"

definition readBytesTo :: "writer \<Rightarrow> decoder \<Rightarrow> ((bool \<times> writer) \<times> decoder) option" where
  "readBytesTo w d =
     do { (n, d1) \<leftarrow> readInt32 d;
          if n <s 0 then Some ((False, w), d1)
          else do { (w', d2) \<leftarrow> writeTo w (sint n) d1; Some ((err d2 = None, w'), d2) } }"

definition readVarBytesTo :: "writer \<Rightarrow> decoder \<Rightarrow> ((bool \<times> writer) \<times> decoder) option" where
  "readVarBytesTo w d =
     do { (n, d1) \<leftarrow> readVarInt d;
          if n <s 0 then Some ((False, w), d1)
          else do { (w', d2) \<leftarrow> writeTo w (sint n) d1; Some ((err d2 = None, w'), d2) } }"

definition readCompactBytesTo :: "writer \<Rightarrow> decoder \<Rightarrow> ((bool \<times> writer) \<times> decoder) option" where
  "readCompactBytesTo w d =
     do { (n, d1) \<leftarrow> readUnsignedVarInt d;
          if n < 1 then Some ((False, w), d1)
          else do { (w', d2) \<leftarrow> writeTo w (sint (n - 1)) d1; Some ((err d2 = None, w'), d2) } }"

section \<open>Types, destinations and compiled decode functions\<close>

text \<open>
  The types \<open>decodeFuncOf\<close> dispatches on (\<open>reflect.Type\<close>): the kinds it supports, the
  element kind \<open>uint8\<close> of \<open>[]byte\<close> (which is unsupported on its own and stands for
  every kind of the \<open>default\<close> branch), slices and structs. A struct is the list of its
  fields in declaration order, each with the tags \<open>forEachStructTag\<close> parses from its
  \<open>kafka:"..."\<close> annotation, in their order. Types that implement \<open>io.ReaderFrom\<close>
  decode themselves by code outside this file and are not part of the embedding.
\<close>

record structTag =
  MinVersion :: "16 word"
  MaxVersion :: "16 word"
  TagID :: int
  Compact :: bool
  Nullable :: bool

datatype 't sfield = SField (ftype: 't) (ftags: "structTag list")

datatype gtype =
    TBool | TInt8 | TInt16 | TInt32 | TInt64 | TString | TUint8
  | TSlice gtype
  | TStruct "gtype sfield list"

text \<open>The destination (the type \<open>value\<close>, a \<open>reflect.Value\<close>) is represented by the
  Go value it refers to; a setter returns the destination overwritten. A slice is
  \<open>None\<close> when it is \<open>nil\<close>.\<close>

datatype val =
    VBool bool
  | VInt8 "8 word"
  | VInt16 "16 word"
  | VInt32 "32 word"
  | VInt64 "64 word"
  | VString "byte list"
  | VBytes "byte list option"
  | VArray "val list option"
  | VStruct "val list"

text \<open>A field of a compiled struct decoder (the local type \<open>field\<close> of
  \<open>structDecodeFuncOf\<close>), and the decode functions as the closures the compiler
  builds: \<open>run\<close> below calls them.\<close>

datatype 'f field = Field (decode: 'f) (index: nat) (tagID: int)

datatype decodeFunc =
    DecodeBool | DecodeInt8 | DecodeInt16 | DecodeInt32 | DecodeInt64
  | DecodeString | DecodeCompactString | DecodeBytes | DecodeCompactBytes
  | ArrayDecode gtype decodeFunc
  | CompactArrayDecode gtype decodeFunc
  | StructDecode "decodeFunc field list" "decodeFunc field list" bool

type_synonym decoding = "decoder \<Rightarrow> val \<Rightarrow> (val \<times> decoder) option"

definition decodeBool :: decoding where
  "decodeBool d v = do { (x, d') \<leftarrow> readBool d; Some (VBool x, d') }"

definition decodeInt8 :: decoding where
  "decodeInt8 d v = do { (x, d') \<leftarrow> readInt8 d; Some (VInt8 x, d') }"

definition decodeInt16 :: decoding where
  "decodeInt16 d v = do { (x, d') \<leftarrow> readInt16 d; Some (VInt16 x, d') }"

definition decodeInt32 :: decoding where
  "decodeInt32 d v = do { (x, d') \<leftarrow> readInt32 d; Some (VInt32 x, d') }"

definition decodeInt64 :: decoding where
  "decodeInt64 d v = do { (x, d') \<leftarrow> readInt64 d; Some (VInt64 x, d') }"

definition decodeString :: decoding where
  "decodeString d v = do { (x, d') \<leftarrow> readString d; Some (VString x, d') }"

definition decodeCompactString :: decoding where
  "decodeCompactString d v = do { (x, d') \<leftarrow> readCompactString d; Some (VString x, d') }"

definition decodeBytes :: decoding where
  "decodeBytes d v = do { (x, d') \<leftarrow> readBytes d; Some (VBytes x, d') }"

definition decodeCompactBytes :: decoding where
  "decodeCompactBytes d v = do { (x, d') \<leftarrow> readCompactBytes d; Some (VBytes x, d') }"

text \<open>The zero value of a type, and \<open>makeArray\<close>: a slice of \<open>n\<close> zero values
  (\<open>reflect.MakeSlice\<close> panics on a negative length).\<close>

lemma size_ftype: "f \<in> set fs \<Longrightarrow> size (ftype f) < Suc (size_list (size_sfield size) fs)"
  by (induction fs) (auto simp: less_Suc_eq_le; cases f; simp)+

function (sequential) zero :: "gtype \<Rightarrow> val" where
  "zero TBool = VBool False"
| "zero TInt8 = VInt8 0"
| "zero TInt16 = VInt16 0"
| "zero TInt32 = VInt32 0"
| "zero TInt64 = VInt64 0"
| "zero TString = VString []"
| "zero TUint8 = VInt8 0"
| "zero (TSlice t) = (if t = TUint8 then VBytes None else VArray None)"
| "zero (TStruct fs) = VStruct (map (\<lambda>f. zero (ftype f)) fs)"
  by pat_completeness auto
termination
  by (relation "measure size") (auto dest: size_ftype)

definition makeArray :: "gtype \<Rightarrow> int \<Rightarrow> val list option" where
  "makeArray t n = (if n < 0 then None else Some (replicate (nat n) (zero t)))"

text \<open>The loop \<open>for i := 0; i < n && d.remain > 0; i++\<close> of \<open>decodeArray\<close> and
  \<open>decodeCompactArray\<close>, over the slots of the array made.\<close>

function decodeElems ::
  "decoding \<Rightarrow> nat \<Rightarrow> nat \<Rightarrow> decoder \<Rightarrow> val list \<Rightarrow> (val list \<times> decoder) option" where
  "decodeElems decodeElem i n d a =
     (if i < n \<and> remain d > 0
      then (case decodeElem d (a ! i) of
              None \<Rightarrow> None
            | Some (x, d') \<Rightarrow> decodeElems decodeElem (Suc i) n d' (a[i := x]))
      else Some (a, d))"
  by pat_completeness auto
termination
  by (relation "measure (\<lambda>(f, i, n, d, a). n - i)") auto

declare decodeElems.simps [simp del]

definition decodeArray :: "gtype \<Rightarrow> decoding \<Rightarrow> decoding" where
  "decodeArray elemType decodeElem d v =
     do {
       (n, d1) \<leftarrow> readInt32 d;
       if n <s 0 then Some (VArray None, d1)
       else do {
         a \<leftarrow> makeArray elemType (sint n);
         (a', d2) \<leftarrow> decodeElems decodeElem 0 (nat (sint n)) d1 a;
         Some (VArray (Some a'), d2)
       }
     }"

definition decodeCompactArray :: "gtype \<Rightarrow> decoding \<Rightarrow> decoding" where
  "decodeCompactArray elemType decodeElem d v =
     do {
       (n, d1) \<leftarrow> readUnsignedVarInt d;
       if n < 1 then Some (VArray None, d1)
       else do {
         a \<leftarrow> makeArray elemType (sint (n - 1));
         (a', d2) \<leftarrow> decodeElems decodeElem 0 (nat (sint (n - 1))) d1 a;
         Some (VArray (Some a'), d2)
       }
     }"

text \<open>\<open>f.decode(d, v.fieldByIndex(f.index))\<close>: the field of the struct is decoded in
  place. Asking a field of a value that has none panics in \<open>reflect\<close>.\<close>

definition decodeField :: "decoding field \<Rightarrow> decoding" where
  "decodeField f d v =
     (case v of
        VStruct vs \<Rightarrow>
          if index f < length vs
          then do { (x, d') \<leftarrow> decode f d (vs ! index f); Some (VStruct (vs[index f := x]), d') }
          else None
      | _ \<Rightarrow> None)"

fun decodeFields :: "decoding field list \<Rightarrow> decoding" where
  "decodeFields [] d v = Some (v, d)"
| "decodeFields (f # fs) d v =
     do { (v', d') \<leftarrow> decodeField f d v; decodeFields fs d' v' }"

text \<open>The map \<open>taggedFields\<close> is the list of the fields stored in it, the last one
  stored first: a lookup finds the field last stored under the id.\<close>

definition lookupTagged :: "'f field list \<Rightarrow> int \<Rightarrow> 'f field option" where
  "lookupTagged taggedFields k = find (\<lambda>f. tagID f = k) taggedFields"

text \<open>One round of the loop over the tag buffer, and the loop \<open>for i := 0; i < n; i++\<close>
  with \<open>k\<close> rounds to go.\<close>

definition decodeTagged :: "decoding field list \<Rightarrow> decoding" where
  "decodeTagged taggedFields d v =
     do {
       (t, d1) \<leftarrow> readUnsignedVarInt d;
       (sz, d2) \<leftarrow> readUnsignedVarInt d1;
       (case lookupTagged taggedFields (sint t) of
          Some f \<Rightarrow> decodeField f d2 v
        | None \<Rightarrow> do { (bs, d3) \<leftarrow> read (sint sz) d2; Some (v, d3) })
     }"

fun decodeTaggedLoop :: "decoding field list \<Rightarrow> nat \<Rightarrow> decoding" where
  "decodeTaggedLoop taggedFields 0 d v = Some (v, d)"
| "decodeTaggedLoop taggedFields (Suc k) d v =
     do { (v', d') \<leftarrow> decodeTagged taggedFields d v; decodeTaggedLoop taggedFields k d' v' }"

text \<open>The function \<open>structDecodeFuncOf\<close> returns (\<open>flds\<close> is its variable
  \<open>fields\<close>).\<close>

definition structDecode :: "decoding field list \<Rightarrow> decoding field list \<Rightarrow> bool \<Rightarrow> decoding" where
  "structDecode flds taggedFields flexible d v =
     do {
       (v1, d1) \<leftarrow> decodeFields flds d v;
       if flexible then do {
         (n, d2) \<leftarrow> readUnsignedVarInt d1;
         decodeTaggedLoop taggedFields (nat (sint n)) d2 v1
       } else Some (v1, d1)
     }"

text \<open>Calling a decode function.\<close>

lemma size_decode:
  "x \<in> set fs \<Longrightarrow> z \<in> set_field x \<Longrightarrow> size z < Suc (size_list (size_field size) fs)"
  by (induction fs) (auto simp: less_Suc_eq_le; cases x; simp)+

function (sequential) run :: "decodeFunc \<Rightarrow> decoding" where
  "run DecodeBool = decodeBool"
| "run DecodeInt8 = decodeInt8"
| "run DecodeInt16 = decodeInt16"
| "run DecodeInt32 = decodeInt32"
| "run DecodeInt64 = decodeInt64"
| "run DecodeString = decodeString"
| "run DecodeCompactString = decodeCompactString"
| "run DecodeBytes = decodeBytes"
| "run DecodeCompactBytes = decodeCompactBytes"
| "run (ArrayDecode elemType elemFunc) = decodeArray elemType (run elemFunc)"
| "run (CompactArrayDecode elemType elemFunc) = decodeCompactArray elemType (run elemFunc)"
| "run (StructDecode flds taggedFields flexible) =
     structDecode (map (map_field run) flds) (map (map_field run) taggedFields) flexible"
  by pat_completeness auto
termination
  by (relation "measure size") (auto dest: size_decode)

section \<open>The compiler of decode functions and the entry point\<close>

definition stringDecodeFuncOf :: "bool \<Rightarrow> structTag \<Rightarrow> decodeFunc" where
  "stringDecodeFuncOf flexible tag = (if flexible then DecodeCompactString else DecodeString)"

definition bytesDecodeFuncOf :: "bool \<Rightarrow> structTag \<Rightarrow> decodeFunc" where
  "bytesDecodeFuncOf flexible tag = (if flexible then DecodeCompactBytes else DecodeBytes)"

text \<open>The callback \<open>structDecodeFuncOf\<close> hands to \<open>forEachStructTag\<close> stops at the
  first tag whose range holds the version.\<close>

definition applicable :: "16 word \<Rightarrow> structTag \<Rightarrow> bool" where
  "applicable version tag = (MinVersion tag \<le>s version \<and> version \<le>s MaxVersion tag)"

text \<open>\<open>forEachStructField\<close> with the callback of \<open>structDecodeFuncOf\<close>: the fields
  from position \<open>i\<close> on, each with the compiler of its type (\<open>None\<close> when it panics),
  added to \<open>fields\<close> (here \<open>flds\<close>) and \<open>taggedFields\<close>.\<close>

fun collectFields ::
  "16 word \<Rightarrow> nat \<Rightarrow> (structTag \<Rightarrow> decodeFunc option) sfield list \<Rightarrow>
   decodeFunc field list \<times> decodeFunc field list \<Rightarrow>
   (decodeFunc field list \<times> decodeFunc field list) option" where
  "collectFields version i [] acc = Some acc"
| "collectFields version i (sf # rest) (flds, taggedFields) =
     (case find (applicable version) (ftags sf) of
        None \<Rightarrow> collectFields version (Suc i) rest (flds, taggedFields)
      | Some tag \<Rightarrow>
          (case ftype sf tag of
             None \<Rightarrow> None
           | Some dec \<Rightarrow>
               if TagID tag < - 1
               then collectFields version (Suc i) rest (flds @ [Field dec i (TagID tag)], taggedFields)
               else collectFields version (Suc i) rest (flds, Field dec i (TagID tag) # taggedFields)))"

definition structDecodeFuncOf ::
  "(structTag \<Rightarrow> decodeFunc option) sfield list \<Rightarrow> 16 word \<Rightarrow> bool \<Rightarrow> decodeFunc option" where
  "structDecodeFuncOf fs version flexible =
     do {
       (flds, taggedFields) \<leftarrow> collectFields version 0 fs ([], []);
       Some (StructDecode flds taggedFields flexible)
     }"

definition arrayDecodeFuncOf :: "gtype \<Rightarrow> decodeFunc option \<Rightarrow> bool \<Rightarrow> decodeFunc option" where
  "arrayDecodeFuncOf elemType elemFunc flexible =
     do {
       f \<leftarrow> elemFunc;
       Some (if flexible then CompactArrayDecode elemType f else ArrayDecode elemType f)
     }"

text \<open>\<open>decodeFuncOf\<close>; \<open>None\<close> is the panic of the \<open>default\<close> branch. The struct case
  gives every field the compiler of its type, which \<open>collectFields\<close> calls on the tag
  it finds; the slice case gives \<open>arrayDecodeFuncOf\<close> the decode function of the
  element type, which it computes first.\<close>

function (sequential) decodeFuncOf ::
  "gtype \<Rightarrow> 16 word \<Rightarrow> bool \<Rightarrow> structTag \<Rightarrow> decodeFunc option" where
  "decodeFuncOf TBool version flexible tag = Some DecodeBool"
| "decodeFuncOf TInt8 version flexible tag = Some DecodeInt8"
| "decodeFuncOf TInt16 version flexible tag = Some DecodeInt16"
| "decodeFuncOf TInt32 version flexible tag = Some DecodeInt32"
| "decodeFuncOf TInt64 version flexible tag = Some DecodeInt64"
| "decodeFuncOf TString version flexible tag = Some (stringDecodeFuncOf flexible tag)"
| "decodeFuncOf (TStruct fs) version flexible tag =
     structDecodeFuncOf
       (map (\<lambda>f. SField (\<lambda>t. decodeFuncOf (ftype f) version flexible t) (ftags f)) fs)
       version flexible"
| "decodeFuncOf (TSlice TUint8) version flexible tag = Some (bytesDecodeFuncOf flexible tag)"
| "decodeFuncOf (TSlice elemType) version flexible tag =
     arrayDecodeFuncOf elemType (decodeFuncOf elemType version flexible tag) flexible"
| "decodeFuncOf TUint8 version flexible tag = None"
  by pat_completeness auto
termination
  by (relation "measure (\<lambda>(t, version, flexible, tag). size t)") (auto dest: size_ftype)

text \<open>The cache \<open>unmarshalers\<close>, keyed by \<open>versionedType\<close>.\<close>

type_synonym cache = "gtype \<times> 16 word \<rightharpoonup> decodeFunc"

text \<open>Modelled from the spec: \<open>dontExpectEOF\<close> is not in the source given. The entry
  point reports the cursor's final error, except that a plain end-of-input is not
  surfaced as an error.\<close>

definition dontExpectEOF :: "error option \<Rightarrow> error option" where
  "dontExpectEOF e = (if e = Some EOF then None else e)"

text \<open>The decoder \<open>Unmarshal\<close> runs on: fresh, or taken from the pool where it went
  after \<open>Reset\<close>; bound to a \<open>bytes.Reader\<close> over \<open>data\<close>.\<close>

definition newDecoder :: "byte list \<Rightarrow> decoder" where
  "newDecoder data =
     \<lparr>reader = data, discarder = False, remain = int (length data),
      buffer = replicate 8 0, err = None, table = None, crc32 = 0\<rparr>"

text \<open>\<open>Unmarshal\<close>, on the cache as it stands: the error returned, the value decoded
  into, and the cache afterwards. \<open>typ\<close> is the type \<open>value\<close> points to.\<close>

definition Unmarshal ::
  "cache \<Rightarrow> byte list \<Rightarrow> 16 word \<Rightarrow> gtype \<Rightarrow> val \<Rightarrow> ((error option \<times> val) \<times> cache) option" where
  "Unmarshal cache data version typ v =
     do {
       (decode, cache') \<leftarrow>
         (case cache (typ, version) of
            Some f \<Rightarrow> Some (f, cache)
          | None \<Rightarrow>
              do {
                f \<leftarrow> decodeFuncOf typ version False
                       \<lparr>MinVersion = - 1, MaxVersion = - 1, TagID = - 2,
                        Compact = True, Nullable = True\<rparr>;
                Some (f, cache((typ, version) \<mapsto> f))
              });
       (v', d) \<leftarrow> run decode (newDecoder data) v;
       Some ((dontExpectEOF (err d), v'), cache')
     }"

section \<open>What one read does\<close>

text \<open>The bytes a read of \<open>k\<close> bytes gets from a decoder without error (what the
  budget and the source allow), and the decoder after they were read.\<close>

definition taken :: "nat \<Rightarrow> decoder \<Rightarrow> byte list" where
  "taken k d = take (min k (nat (remain d))) (reader d)"

definition consume :: "byte list \<Rightarrow> decoder \<Rightarrow> decoder" where
  "consume bs d =
     d\<lparr>reader := drop (length bs) (reader d),
       crc32 := (if bs \<noteq> [] then (case table d of None \<Rightarrow> crc32 d | Some upd \<Rightarrow> upd (crc32 d) bs)
                 else crc32 d),
       remain := remain d - int (length bs)\<rparr>"

lemma Read_failed: "err d \<noteq> None \<Longrightarrow> Read k d = Some (([], err d), d)"
  by (simp add: Read_def)

lemma consume_Nil [simp]: "consume [] d = d"
  by (simp add: consume_def)

lemma length_taken: "length (taken k d) \<le> k"
  by (simp add: taken_def)

lemma Read_ok:
  assumes e: "err d = None" and pos: "0 < remain d"
  shows "Read k d = Some ((taken k d, if reader d = [] then Some EOF else None),
                          consume (taken k d) d)"
proof -
  have k': "(if int k > remain d then nat (remain d) else k) = min k (nat (remain d))"
    using pos by (simp add: min_def) linarith
  have r: "\<not> remain d < 0" "remain d \<noteq> 0" using pos by simp_all
  have rr: "reader_Read (min k (nat (remain d))) (reader d) =
      (taken k d, if reader d = [] then Some EOF else None)"
    by (simp add: reader_Read_def taken_def)
  show ?thesis using e r
    by (simp add: Read_def k' Let_def rr consume_def)
qed

lemma Read_eof: "err d = None \<Longrightarrow> remain d = 0 \<Longrightarrow> Read k d = Some (([], Some EOF), d)"
  by (simp add: Read_def)

lemma ReadAtLeast_failed:
  "err d \<noteq> None \<Longrightarrow> 0 < k \<Longrightarrow> ReadAtLeast_loop k [] d = Some (([], err d), d)"
  by (subst ReadAtLeast_loop.simps) (auto simp: Read_failed)

lemma ReadAtLeast_full: "k \<le> length acc \<Longrightarrow> ReadAtLeast_loop k acc d = Some ((acc, None), d)"
  by (subst ReadAtLeast_loop.simps) simp

lemma ReadAtLeast_dry:
  assumes "err d = None" "0 \<le> remain d" "remain d = 0 \<or> reader d = []" "length acc < k"
  shows "ReadAtLeast_loop k acc d = Some ((acc, Some EOF), d)"
proof (cases "remain d = 0")
  case True
  with assms show ?thesis by (subst ReadAtLeast_loop.simps) (simp add: Read_eof)
next
  case False
  with assms have "0 < remain d" "reader d = []" by auto
  with assms show ?thesis
    by (subst ReadAtLeast_loop.simps) (simp add: Read_ok taken_def)
qed

lemma taken_Nil: "0 \<le> remain d \<Longrightarrow> (taken k d = []) = (k = 0 \<or> remain d = 0 \<or> reader d = [])"
  by (auto simp: taken_def)

lemma consume_dry:
  assumes "0 \<le> remain d" "length (taken k d) < k"
  shows "remain (consume (taken k d) d) = 0 \<or> reader (consume (taken k d) d) = []"
proof (cases "nat (remain d) \<le> length (reader d)")
  case True
  with assms have "length (taken k d) = nat (remain d)"
    by (simp add: taken_def min_def split: if_splits)
  with assms show ?thesis by (simp add: consume_def)
next
  case False
  with assms have "length (taken k d) = length (reader d)"
    by (simp add: taken_def min_def split: if_splits)
  then show ?thesis by (simp add: consume_def)
qed

lemma ReadAtLeast_ok:
  assumes "err d = None" "0 \<le> remain d"
  shows "ReadAtLeast_loop k [] d =
     Some ((taken k d, if length (taken k d) = k then None else Some EOF),
           consume (taken k d) d)"
proof (cases "taken k d = []")
  case True
  show ?thesis
  proof (cases "k = 0")
    case k0: True
    then show ?thesis using True by (simp add: ReadAtLeast_full)
  next
    case False
    with True have "remain d = 0 \<or> reader d = []"
      using assms by (simp add: taken_Nil)
    with assms False True show ?thesis by (simp add: ReadAtLeast_dry)
  qed
next
  case False
  let ?bs = "taken k d"
  let ?d1 = "consume ?bs d"
  from False have pos: "0 < remain d" and ne: "reader d \<noteq> []" and k: "0 < k"
    using assms by (auto simp: taken_Nil)
  have step: "ReadAtLeast_loop k [] d = ReadAtLeast_loop k ?bs ?d1"
    using assms k pos ne by (subst ReadAtLeast_loop.simps) (simp add: Read_ok)
  show ?thesis
  proof (cases "length ?bs = k")
    case True
    then show ?thesis by (simp add: step ReadAtLeast_full)
  next
    case neq: False
    then have lt: "length ?bs < k" using length_taken [of k d] by simp
    have a: "err ?d1 = None" and b: "0 \<le> remain ?d1"
      using assms by (auto simp: consume_def taken_def)
    have c: "remain ?d1 = 0 \<or> reader ?d1 = []"
      using assms(2) lt by (rule consume_dry)
    have "ReadAtLeast_loop k ?bs ?d1 = Some ((?bs, Some EOF), ?d1)"
      using a b c lt by (rule ReadAtLeast_dry)
    then show ?thesis using neq by (simp add: step)
  qed
qed


text \<open>The error \<open>io.ReadFull\<close> returns for a slice of length \<open>k\<close>, and what
  \<open>discardAll\<close> does once the sticky error is set: a source with \<open>Discard\<close> skips the
  rest of the frame (or what it has of it), any other source is left where it is, since
  \<open>(*decoder).Read\<close> returns at once.\<close>

definition readErr :: "nat \<Rightarrow> decoder \<Rightarrow> error option" where
  "readErr k d =
     (if length (taken k d) = k then None
      else if taken k d \<noteq> [] then Some ErrUnexpectedEOF else Some EOF)"

definition skip :: "decoder \<Rightarrow> decoder" where
  "skip d =
     (if discarder d
      then (let k = (if remain d < 0 then 0 else min (nat (remain d)) (length (reader d)))
            in d\<lparr>reader := drop k (reader d), remain := remain d - int k\<rparr>)
      else d)"

lemma io_ReadFull_failed:
  "err d \<noteq> None \<Longrightarrow> io_ReadFull k d = Some (([], if k = 0 then None else err d), d)"
  by (cases "k = 0") (auto simp: io_ReadFull_def ReadAtLeast_failed ReadAtLeast_full)

lemma io_ReadFull_ok:
  "err d = None \<Longrightarrow> 0 \<le> remain d \<Longrightarrow>
   io_ReadFull k d = Some ((taken k d, readErr k d), consume (taken k d) d)"
  using length_taken [of k d] by (auto simp: io_ReadFull_def ReadAtLeast_ok readErr_def)

lemma setError_None: "setError None d = Some d"
  by (simp add: setError.simps)

lemma setError_failed: "err d \<noteq> None \<Longrightarrow> setError e d = Some d"
  by (auto simp: setError.simps)

lemma io_Copy_failed:
  "err d \<noteq> None \<Longrightarrow>
   io_Copy w d = Some ((0, if err d = Some EOF then None else err d, w), d)"
  unfolding io_Copy_def
  by (subst io_Copy_loop.simps) (auto simp: Read_failed)

lemma discard_failed:
  "err d \<noteq> None \<Longrightarrow> discard (remain d) d = Some (skip d)"
  by (subst discard.simps)
     (auto simp: io_Copy_failed setError_failed skip_def reader_Discard_def Let_def min_def)

lemma setError_first:
  "err d = None \<Longrightarrow> setError (Some e) d = Some (skip (d\<lparr>err := Some e\<rparr>))"
  using discard_failed [of "d\<lparr>err := Some e\<rparr>"]
  by (simp add: setError.simps discardAll.simps)


text \<open>The decoder after \<open>read\<close> asked for \<open>k\<close> bytes, and after \<open>readFull\<close>
  did so into the scratch buffer.\<close>

definition advance :: "nat \<Rightarrow> decoder \<Rightarrow> decoder" where
  "advance k d = (consume (taken k d) d)\<lparr>err := readErr k d\<rparr>"

definition fill :: "nat \<Rightarrow> decoder \<Rightarrow> decoder" where
  "fill k d = (advance k d)\<lparr>buffer := taken k d @ drop (length (taken k d)) (buffer d)\<rparr>"

lemma skip_dry: "remain d = 0 \<or> reader d = [] \<Longrightarrow> skip d = d"
  by (auto simp: skip_def)

lemma setError_readErr:
  assumes "err d = None" "0 \<le> remain d"
  shows "setError (readErr k d) (consume (taken k d) d) = Some (advance k d)"
proof (cases "readErr k d")
  case None
  moreover have "err (consume (taken k d) d) = None" using assms by (simp add: consume_def)
  ultimately show ?thesis by (simp add: setError_None advance_def)
next
  case (Some e)
  then have "length (taken k d) < k"
    using length_taken [of k d] by (auto simp: readErr_def split: if_splits)
  with assms have "remain (consume (taken k d) d) = 0 \<or> reader (consume (taken k d) d) = []"
    by (intro consume_dry)
  then have "skip ((consume (taken k d) d)\<lparr>err := Some e\<rparr>) = (consume (taken k d) d)\<lparr>err := Some e\<rparr>"
    by (intro skip_dry) simp
  moreover have "err (consume (taken k d) d) = None" using assms by (simp add: consume_def)
  ultimately show ?thesis using Some by (simp add: setError_first advance_def)
qed

lemma read_ok:
  "err d = None \<Longrightarrow> 0 \<le> remain d \<Longrightarrow> 0 \<le> n \<Longrightarrow>
   read n d = Some (taken (nat n) d, advance (nat n) d)"
  by (simp add: read_def io_ReadFull_ok setError_readErr)

lemma read_failed: "err d \<noteq> None \<Longrightarrow> 0 \<le> n \<Longrightarrow> read n d = Some ([], d)"
  by (simp add: read_def io_ReadFull_failed setError_failed)

lemma readFull_ok:
  assumes "err d = None" "0 \<le> remain d"
  shows "readFull k d = Some (length (taken k d) = k, fill k d)"
proof -
  let ?b = "taken k d @ drop (length (taken k d)) (buffer d)"
  let ?d1 = "consume (taken k d) d"
  have "setError (readErr k d) ?d1 = Some (advance k d)"
    using assms by (rule setError_readErr)
  moreover have "setError (readErr k d) (?d1\<lparr>buffer := ?b\<rparr>) =
      map_option (\<lambda>x. x\<lparr>buffer := ?b\<rparr>) (setError (readErr k d) ?d1)"
  proof (cases "readErr k d")
    case None
    then show ?thesis by (simp add: setError_None)
  next
    case (Some e)
    have e1: "err ?d1 = None" using assms by (simp add: consume_def)
    then show ?thesis using Some
      by (simp add: setError_first) (simp add: skip_def Let_def)
  qed
  ultimately show ?thesis
    using assms by (simp add: readFull_def io_ReadFull_ok fill_def consume_def)
qed

lemma readFull_failed: "err d \<noteq> None \<Longrightarrow> readFull k d = Some (k = 0, d)"
  by (auto simp: readFull_def io_ReadFull_failed setError_failed)


section \<open>The readers on a failed and on a live decoder\<close>

lemma readByte_failed: "err d \<noteq> None \<Longrightarrow> readByte d = Some (0, d)"
  by (simp add: readByte_def readFull_failed)

lemma readBool_failed: "err d \<noteq> None \<Longrightarrow> readBool d = Some (False, d)"
  by (simp add: readBool_def readByte_failed)

lemma readInt8_failed: "err d \<noteq> None \<Longrightarrow> readInt8 d = Some (0, d)"
  by (simp add: readInt8_def readFull_failed)

lemma readInt16_failed: "err d \<noteq> None \<Longrightarrow> readInt16 d = Some (0, d)"
  by (simp add: readInt16_def readFull_failed)

lemma readInt32_failed: "err d \<noteq> None \<Longrightarrow> readInt32 d = Some (0, d)"
  by (simp add: readInt32_def readFull_failed)

lemma readInt64_failed: "err d \<noteq> None \<Longrightarrow> readInt64 d = Some (0, d)"
  by (simp add: readInt64_def readFull_failed)

lemma ReadByte_failed: "err d \<noteq> None \<Longrightarrow> ReadByte d = Some ((0, err d), d)"
  by (simp add: ReadByte_def readByte_failed)

lemma readVarInt_failed: "err d \<noteq> None \<Longrightarrow> readVarInt d = Some (0, d)"
  unfolding readVarInt_def
  by (cases "nat (if 11 > remain d then remain d else 11)")
     (simp_all add: setError_failed readByte_failed)

lemma readUnsignedVarInt_failed: "err d \<noteq> None \<Longrightarrow> readUnsignedVarInt d = Some (0, d)"
  unfolding readUnsignedVarInt_def
  by (cases "nat (if 11 > remain d then remain d else 11)")
     (simp_all add: setError_failed readByte_failed)

lemma readString_failed: "err d \<noteq> None \<Longrightarrow> readString d = Some ([], d)"
  by (simp add: readString_def readInt16_failed read_failed)

lemma readBytes_failed: "err d \<noteq> None \<Longrightarrow> readBytes d = Some (Some [], d)"
  by (simp add: readBytes_def readInt32_failed read_failed)

lemma readCompactString_failed: "err d \<noteq> None \<Longrightarrow> readCompactString d = Some ([], d)"
  by (simp add: readCompactString_def readUnsignedVarInt_failed)

lemma readCompactBytes_failed: "err d \<noteq> None \<Longrightarrow> readCompactBytes d = Some (None, d)"
  by (simp add: readCompactBytes_def readUnsignedVarInt_failed)

lemma buffer_fill: "length (taken k d) = k \<Longrightarrow> take k (buffer (fill k d)) = taken k d"
  by (simp add: fill_def)

lemma buffer_fill0: "length (taken k d) = k \<Longrightarrow> 0 < k \<Longrightarrow> buffer (fill k d) ! 0 = hd (taken k d)"
  by (cases "taken k d") (auto simp: fill_def)

lemma readByte_ok:
  "err d = None \<Longrightarrow> 0 \<le> remain d \<Longrightarrow>
   readByte d = Some (if length (taken 1 d) = 1 then hd (taken 1 d) else 0, fill 1 d)"
  by (simp add: readByte_def readFull_ok buffer_fill0)

lemma readBool_ok:
  "err d = None \<Longrightarrow> 0 \<le> remain d \<Longrightarrow>
   readBool d = Some (length (taken 1 d) = 1 \<and> hd (taken 1 d) \<noteq> 0, fill 1 d)"
  by (simp add: readBool_def readByte_ok)

lemma readInt8_ok:
  "err d = None \<Longrightarrow> 0 \<le> remain d \<Longrightarrow>
   readInt8 d = Some (if length (taken 1 d) = 1 then hd (taken 1 d) else 0, fill 1 d)"
  by (simp add: readInt8_def readFull_ok buffer_fill0)

lemma readInt16_ok:
  "err d = None \<Longrightarrow> 0 \<le> remain d \<Longrightarrow>
   readInt16 d = Some (if length (taken 2 d) = 2 then Uint16 (taken 2 d) else 0, fill 2 d)"
  by (simp add: readInt16_def readFull_ok buffer_fill)

lemma readInt32_ok:
  "err d = None \<Longrightarrow> 0 \<le> remain d \<Longrightarrow>
   readInt32 d = Some (if length (taken 4 d) = 4 then Uint32 (taken 4 d) else 0, fill 4 d)"
  by (simp add: readInt32_def readFull_ok buffer_fill)

lemma readInt64_ok:
  "err d = None \<Longrightarrow> 0 \<le> remain d \<Longrightarrow>
   readInt64 d = Some (if length (taken 8 d) = 8 then Uint64 (taken 8 d) else 0, fill 8 d)"
  by (simp add: readInt64_def readFull_ok buffer_fill)

section \<open>The sticky error\<close>

text \<open>
  Claim C3. Once the sticky error slot of a decoder is set, every read operation
  (\<open>Read\<close>, \<open>readFull\<close>, \<open>readByte\<close>, \<open>readBool\<close>, \<open>readInt8/16/32/64\<close>) returns
  without panic, gives the zero value of its result type (and \<open>Read\<close> the stored error),
  and leaves the whole decoder state as it was: the source is not read, the budget is
  not touched, and the error slot keeps the error it had. \<open>setError\<close> with any other
  error keeps it too, so nothing but \<open>Reset\<close> clears the slot.
\<close>

theorem sticky_error_reads:
  "err d = Some e \<Longrightarrow>
     Read k d = Some (([], Some e), d) \<and>
     readFull (Suc k) d = Some (False, d) \<and>
     readByte d = Some (0, d) \<and>
     readBool d = Some (False, d) \<and>
     readInt8 d = Some (0, d) \<and>
     readInt16 d = Some (0, d) \<and>
     readInt32 d = Some (0, d) \<and>
     readInt64 d = Some (0, d) \<and>
     setError e' d = Some d"
  by (simp add: Read_failed readFull_failed readByte_failed readBool_failed readInt8_failed
        readInt16_failed readInt32_failed readInt64_failed setError_failed)

theorem sticky_error_reads_witness:
  "err ((newDecoder [1, 2, 3])\<lparr>err := Some ErrUnexpectedEOF\<rparr>) = Some ErrUnexpectedEOF \<and>
   Read 2 ((newDecoder [1, 2, 3])\<lparr>err := Some ErrUnexpectedEOF\<rparr>) =
     Some (([], Some ErrUnexpectedEOF), (newDecoder [1, 2, 3])\<lparr>err := Some ErrUnexpectedEOF\<rparr>) \<and>
   readInt32 ((newDecoder [1, 2, 3])\<lparr>err := Some ErrUnexpectedEOF\<rparr>) =
     Some (0, (newDecoder [1, 2, 3])\<lparr>err := Some ErrUnexpectedEOF\<rparr>)"
  using sticky_error_reads [of "(newDecoder [1, 2, 3])\<lparr>err := Some ErrUnexpectedEOF\<rparr>"
      ErrUnexpectedEOF 2 None]
  by simp

section \<open>Variable-length integers\<close>

text \<open>What the loop of \<open>readVarInt\<close> and \<open>readUnsignedVarInt\<close> leaves in the error slot,
  read off the bytes of the source: \<open>n\<close> is the number of rounds allowed, \<open>e\<close> the
  error of the function. \<open>contAll n bs\<close>: the source holds \<open>n\<close> bytes at least and
  each of the first \<open>n\<close> has the continuation bit.\<close>

fun scan :: "error \<Rightarrow> nat \<Rightarrow> byte list \<Rightarrow> error option" where
  "scan e 0 bs = Some e"
| "scan e (Suc n) [] = Some EOF"
| "scan e (Suc n) (b # bs) = (if b AND 0x80 = 0 then None else scan e n bs)"

definition contAll :: "nat \<Rightarrow> byte list \<Rightarrow> bool" where
  "contAll n bs = (n \<le> length bs \<and> (\<forall>b \<in> set (take n bs). b AND 0x80 \<noteq> 0))"

lemma scan_contAll: "e \<noteq> EOF \<Longrightarrow> (scan e n bs = Some e) = contAll n bs"
  by (induction e n bs rule: scan.induct) (auto simp: contAll_def)

lemma readByte_dry:
  assumes "err d = None" "0 \<le> remain d" "remain d = 0 \<or> reader d = []"
  shows "readByte d = Some (0, d\<lparr>err := Some EOF\<rparr>)"
proof -
  have "taken 1 d = []" using assms by (simp add: taken_Nil)
  then show ?thesis using assms(1,2)
    by (simp add: readByte_ok fill_def advance_def readErr_def)
qed

lemma readByte_step:
  assumes "err d = None" "0 < remain d" "reader d = b # bs"
  shows "\<exists>d'. readByte d = Some (b, d') \<and> err d' = None \<and> reader d' = bs \<and>
           remain d' = remain d - 1 \<and> discarder d' = discarder d \<and> table d' = table d"
proof -
  have t: "taken 1 d = [b]" using assms by (simp add: taken_def min_def)
  have "readByte d = Some (b, fill 1 d)" using assms t by (simp add: readByte_ok)
  moreover have "err (fill 1 d) = None" "reader (fill 1 d) = bs" "remain (fill 1 d) = remain d - 1"
      "discarder (fill 1 d) = discarder d" "table (fill 1 d) = table d"
    using assms t by (simp_all add: fill_def advance_def readErr_def consume_def)
  ultimately show ?thesis by blast
qed

lemma readVarInt_loop_err:
  "err d = None \<Longrightarrow> int n \<le> remain d \<Longrightarrow>
   \<exists>r d'. readVarInt_loop n x s d = Some (r, d') \<and> err d' = scan ErrVarInt n (reader d) \<and>
     (scan ErrVarInt n (reader d) = Some ErrVarInt \<longrightarrow> r = 0 \<and>
        reader d' = drop (if discarder d then nat (remain d) else n) (reader d) \<and>
        remain d' = remain d -
          int (if discarder d then min (nat (remain d)) (length (reader d)) else n))"
proof (induction n arbitrary: d x s)
  case 0
  have "drop (min a (length xs)) xs = drop a xs" for a and xs :: "byte list"
    by (cases "a \<le> length xs") simp_all
  with 0 show ?case by (simp add: setError_first skip_def Let_def)
next
  case (Suc n)
  show ?case
  proof (cases "reader d")
    case Nil
    with Suc.prems show ?thesis by (simp add: readByte_dry)
  next
    case (Cons b bs)
    from Suc.prems have pos: "0 < remain d" by simp
    from readByte_step [OF Suc.prems(1) pos Cons] obtain d1 where
      rb: "readByte d = Some (b, d1)" and d1: "err d1 = None" "reader d1 = bs"
        "remain d1 = remain d - 1" "discarder d1 = discarder d"
      by blast
    show ?thesis
    proof (cases "b AND 0x80 = 0")
      case True
      with rb d1 Cons show ?thesis by (simp add: Let_def)
    next
      case False
      have le: "int n \<le> remain d1" using Suc.prems d1 by simp
      then have nd: "nat (remain d1 + 1) = Suc (nat (remain d1))" "remain d = remain d1 + 1"
        using d1 by simp_all
      from Suc.IH [OF d1(1) le, of "x OR push_bit s (ucast (b AND 0x7f))" "s + 7"]
      show ?thesis using False rb d1(1,2,4) Cons by (auto simp: nd)
    qed
  qed
qed

lemma readUnsignedVarInt_loop_err:
  "err d = None \<Longrightarrow> int n \<le> remain d \<Longrightarrow>
   \<exists>r d'. readUnsignedVarInt_loop n x s d = Some (r, d') \<and> err d' = scan ErrUnsignedVarInt n (reader d) \<and>
     (scan ErrUnsignedVarInt n (reader d) = Some ErrUnsignedVarInt \<longrightarrow> r = 0 \<and>
        reader d' = drop (if discarder d then nat (remain d) else n) (reader d) \<and>
        remain d' = remain d -
          int (if discarder d then min (nat (remain d)) (length (reader d)) else n))"
proof (induction n arbitrary: d x s)
  case 0
  have "drop (min a (length xs)) xs = drop a xs" for a and xs :: "byte list"
    by (cases "a \<le> length xs") simp_all
  with 0 show ?case by (simp add: setError_first skip_def Let_def)
next
  case (Suc n)
  show ?case
  proof (cases "reader d")
    case Nil
    with Suc.prems show ?thesis by (simp add: readByte_dry)
  next
    case (Cons b bs)
    from Suc.prems have pos: "0 < remain d" by simp
    from readByte_step [OF Suc.prems(1) pos Cons] obtain d1 where
      rb: "readByte d = Some (b, d1)" and d1: "err d1 = None" "reader d1 = bs"
        "remain d1 = remain d - 1" "discarder d1 = discarder d"
      by blast
    show ?thesis
    proof (cases "b AND 0x80 = 0")
      case True
      with rb d1 Cons show ?thesis by (simp add: Let_def)
    next
      case False
      have le: "int n \<le> remain d1" using Suc.prems d1 by simp
      then have nd: "nat (remain d1 + 1) = Suc (nat (remain d1))" "remain d = remain d1 + 1"
        using d1 by simp_all
      from Suc.IH [OF d1(1) le, of "x OR push_bit s (ucast (b AND 0x7f))" "s + 7"]
      show ?thesis using False rb d1(1,2,4) Cons by (auto simp: nd)
    qed
  qed
qed


lemma scan_EOF:
  "e \<noteq> EOF \<Longrightarrow> (scan e n bs = Some EOF) = (length bs < n \<and> (\<forall>b \<in> set bs. b AND 0x80 \<noteq> 0))"
  by (induction e n bs rule: scan.induct) auto




lemma scan_numeral_Cons:
  "scan e (numeral k) (b # bs) = (if b AND 0x80 = 0 then None else scan e (pred_numeral k) bs)"
  "scan e (numeral k) [] = Some EOF"
  "scan e 1 (b # bs) = (if b AND 0x80 = 0 then None else scan e 0 bs)"
  "scan e 1 [] = Some EOF"
  by (simp_all add: numeral_eq_Suc)

text \<open>
  Claim C5, as the code has it. On a decoder without error, \<open>readVarInt\<close> and
  \<open>readUnsignedVarInt\<close> return, and they signal their malformed-varint error exactly
  when each of the first \<open>min(11, d.remain)\<close> bytes of the source has the continuation
  bit: after fewer than 11 groups when the budget of the frame is below 11, and at once
  when it is 0. They leave \<open>io.EOF\<close> exactly when the source itself ends before that
  many bytes, every byte it had having the continuation bit.
\<close>

theorem varint_error_cases:
  "err d = None \<Longrightarrow> 0 \<le> remain d \<Longrightarrow> n = nat (min 11 (remain d)) \<Longrightarrow>
   (\<exists>x d'. readVarInt d = Some (x, d') \<and>
      (err d' = Some ErrVarInt) = contAll n (reader d) \<and>
      (err d' = Some EOF) = (length (reader d) < n \<and> (\<forall>b \<in> set (reader d). b AND 0x80 \<noteq> 0))) \<and>
   (\<exists>x d'. readUnsignedVarInt d = Some (x, d') \<and>
      (err d' = Some ErrUnsignedVarInt) = contAll n (reader d) \<and>
      (err d' = Some EOF) = (length (reader d) < n \<and> (\<forall>b \<in> set (reader d). b AND 0x80 \<noteq> 0)))"
proof -
  assume a: "err d = None" "0 \<le> remain d" "n = nat (min 11 (remain d))"
  then have n: "nat (if 11 > remain d then remain d else 11) = n" and le: "int n \<le> remain d"
    by (auto simp: min_def)
  from readVarInt_loop_err [OF a(1) le, of 0 0]
  have 1: "\<exists>x d'. readVarInt d = Some (x, d') \<and> err d' = scan ErrVarInt n (reader d)"
    unfolding readVarInt_def n by blast
  from readUnsignedVarInt_loop_err [OF a(1) le, of 0 0]
  have 2: "\<exists>x d'. readUnsignedVarInt d = Some (x, d') \<and> err d' = scan ErrUnsignedVarInt n (reader d)"
    unfolding readUnsignedVarInt_def n by blast
  show ?thesis using 1 2
    by (auto simp: scan_contAll scan_EOF)
qed

theorem varint_error_cases_witness:
  "err (newDecoder [0x80, 0x80, 0x80, 0x80, 0x80, 0x80, 0x80, 0x80, 0x80, 0x80, 0x80, 1]) = None \<and>
   0 \<le> remain (newDecoder [0x80, 0x80, 0x80, 0x80, 0x80, 0x80, 0x80, 0x80, 0x80, 0x80, 0x80, 1]) \<and>
   (\<exists>x d'. readVarInt (newDecoder [0x80, 0x80, 0x80, 0x80, 0x80, 0x80, 0x80, 0x80, 0x80, 0x80, 0x80, 1]) = Some (x, d') \<and>
      err d' = Some ErrVarInt) \<and>
   (\<exists>x d'. readUnsignedVarInt (newDecoder [0x80, 0x80, 0x80, 0x80, 0x80, 0x80, 0x80, 0x80, 0x80, 0x80, 0x80, 1]) = Some (x, d') \<and>
      err d' = Some ErrUnsignedVarInt)"
  using varint_error_cases [of "newDecoder [0x80, 0x80, 0x80, 0x80, 0x80, 0x80, 0x80, 0x80, 0x80, 0x80, 0x80, 1]" 11]
  by (auto simp: newDecoder_def contAll_def)

text \<open>The claim as stated fails: with a budget of two bytes, two continuation bytes give
  the malformed-varint error, although only two groups were read and the input is not
  eleven bytes long.\<close>

theorem varint_error_short_budget:
  "\<exists>x d'. readVarInt (newDecoder [0x80, 0x80]) = Some (x, d') \<and> err d' = Some ErrVarInt \<and>
     err d' \<noteq> Some EOF \<and> \<not> contAll 11 (reader (newDecoder [0x80, 0x80]))"
  using readVarInt_loop_err [of "newDecoder [0x80, 0x80]" 2 0 0]
  by (auto simp: newDecoder_def readVarInt_def scan_numeral_Cons contAll_def)

section \<open>Discarding the rest of the frame on the first error\<close>

lemma setError_no_Discard:
  "err d = None \<Longrightarrow> \<not> discarder d \<Longrightarrow> setError (Some e) d = Some (d\<lparr>err := Some e\<rparr>)"
  by (simp add: setError_first skip_def)

lemma setError_Discard:
  "err d = None \<Longrightarrow> discarder d \<Longrightarrow> 0 \<le> remain d \<Longrightarrow> nat (remain d) \<le> length (reader d) \<Longrightarrow>
   setError (Some e) d =
     Some (d\<lparr>err := Some e, reader := drop (nat (remain d)) (reader d), remain := 0\<rparr>)"
  by (simp add: setError_first skip_def min_def)

text \<open>
  Claim C4 fails on a source without \<open>Discard\<close>. \<open>setError\<close> stores the error before it
  calls \<open>discardAll\<close>, so the \<open>io.Copy(ioutil.Discard, d)\<close> of \<open>discard\<close> reads nothing.
  A frame of 12 bytes on a \<open>bytes.Reader\<close>, eleven continuation bytes and one more:
  \<open>readVarInt\<close> fails after eleven, and the twelfth byte of the frame is still in the
  source, the budget still 1.
\<close>

theorem first_error_leaves_frame:
  "\<exists>x d'. readVarInt (newDecoder [0x80, 0x80, 0x80, 0x80, 0x80, 0x80, 0x80, 0x80, 0x80, 0x80, 0x80, 1]) = Some (x, d') \<and>
     err d' = Some ErrVarInt \<and> reader d' = [1] \<and> remain d' = 1"
  using readVarInt_loop_err [of "newDecoder [0x80, 0x80, 0x80, 0x80, 0x80, 0x80, 0x80, 0x80, 0x80, 0x80, 0x80, 1]" 11 0 0]
  by (auto simp: newDecoder_def readVarInt_def scan_numeral_Cons)

section \<open>The budget\<close>

text \<open>
  Claim C9 fails in \<open>readCompactBytesTo\<close>. The ten bytes \<open>ff ff ff ff ff ff ff ff ff 01\<close>
  are the unsigned varint \<open>2^64 - 1\<close>; \<open>int(n-1)\<close> is \<open>-2\<close>, \<open>writeTo\<close> stores it in
  \<open>d.remain\<close>, and the \<open>Read\<close> that \<open>io.Copy\<close> makes panics on \<open>b[:d.remain]\<close>.
\<close>

theorem negative_budget:
  "(case readUnsignedVarInt (newDecoder (replicate 9 0xff @ [1])) of
      None \<Rightarrow> False
    | Some (n, d1) \<Rightarrow>
        n = - 1 \<and> err d1 = None \<and> remain d1 = 0 \<and>
        remain (writeTo_bound (sint (n - 1)) d1) = - 2) \<and>
   readCompactBytesTo Discard_writer (newDecoder (replicate 9 0xff @ [1])) = None"
  by code_simp

section \<open>Sentinel lengths\<close>

lemma readUnsignedVarInt_loop_numeral:
  "readUnsignedVarInt_loop (numeral k) x s d =
     do {
       (b, d1) \<leftarrow> readByte d;
       if b AND 0x80 = 0
       then Some (x OR push_bit s (ucast b), d1)
       else readUnsignedVarInt_loop (pred_numeral k) (x OR push_bit s (ucast (b AND 0x7f))) (s + 7) d1
     }"
  by (simp add: numeral_eq_Suc)

lemmas eval_read = taken_def fill_def advance_def consume_def readErr_def newDecoder_def

text \<open>
  Claim C8. A length prefix that is a sentinel decodes to the empty or nil value, and
  the decoder is left exactly as it was right after the prefix was read, so that no
  byte of a payload is consumed: a classic string whose 2-byte length is negative is
  \<open>""\<close>; classic bytes and a classic array whose 4-byte length is negative are \<open>nil\<close>;
  a compact string, compact bytes and a compact array whose unsigned varint is 0 are
  \<open>""\<close>, \<open>nil\<close> and \<open>nil\<close>.
\<close>

theorem sentinel_lengths:
  "(readInt16 d = Some (n16, d1) \<and> n16 <s 0 \<longrightarrow> readString d = Some ([], d1)) \<and>
   (readInt32 d = Some (n32, d2) \<and> n32 <s 0 \<longrightarrow>
      readBytes d = Some (None, d2) \<and>
      decodeArray elemType decodeElem d v = Some (VArray None, d2)) \<and>
   (readUnsignedVarInt d = Some (0, d3) \<longrightarrow>
      readCompactString d = Some ([], d3) \<and>
      readCompactBytes d = Some (None, d3) \<and>
      decodeCompactArray elemType decodeElem d v = Some (VArray None, d3))"
  by (simp add: readString_def readBytes_def decodeArray_def readCompactString_def
        readCompactBytes_def decodeCompactArray_def)

theorem sentinel_lengths_witness:
  "(\<exists>d'. readString (newDecoder [0xff, 0xff, 0x41, 0x42]) = Some ([], d') \<and>
      reader d' = [0x41, 0x42] \<and> remain d' = 2 \<and> err d' = None) \<and>
   (\<exists>d'. readBytes (newDecoder [0xff, 0xff, 0xff, 0xff, 0x41]) = Some (None, d') \<and>
      decodeArray TInt8 decodeInt8 (newDecoder [0xff, 0xff, 0xff, 0xff, 0x41]) (VArray (Some [])) =
        Some (VArray None, d') \<and>
      reader d' = [0x41] \<and> remain d' = 1 \<and> err d' = None) \<and>
   (\<exists>d'. readCompactString (newDecoder [0, 0x41]) = Some ([], d') \<and>
      readCompactBytes (newDecoder [0, 0x41]) = Some (None, d') \<and>
      decodeCompactArray TInt8 decodeInt8 (newDecoder [0, 0x41]) (VArray (Some [])) =
        Some (VArray None, d') \<and>
      reader d' = [0x41] \<and> remain d' = 1 \<and> err d' = None)"
proof -
  let ?a = "newDecoder [0xff, 0xff, 0x41, 0x42]"
  let ?b = "newDecoder [0xff, 0xff, 0xff, 0xff, 0x41]"
  let ?c = "newDecoder [0, 0x41]"
  have a: "readInt16 ?a = Some (- 1, fill 2 ?a)"
    by (simp add: readInt16_ok eval_read Uint16_def)
  have b: "readInt32 ?b = Some (- 1, fill 4 ?b)"
    by (simp add: readInt32_ok eval_read Uint32_def)
  have c: "readUnsignedVarInt ?c = Some (0, fill 1 ?c)"
    by (simp add: readUnsignedVarInt_def readUnsignedVarInt_loop_numeral readByte_ok eval_read)
  show ?thesis
    using sentinel_lengths [of ?a "- 1" "fill 2 ?a"]
      sentinel_lengths [of ?b _ _ "- 1" "fill 4 ?b" TInt8 decodeInt8 "VArray (Some [])"]
      sentinel_lengths [of ?c _ _ _ _ TInt8 decodeInt8 "VArray (Some [])" "fill 1 ?c"]
      a b c
    by (simp add: eval_read)
qed


section \<open>Reads within the budget\<close>

text \<open>\<open>reads d d'\<close>: the decoder \<open>d'\<close> is what reads leave of \<open>d\<close>. The budget is not
  negative and has not grown, the source has lost as many bytes as the budget, a
  decoder that had failed is untouched, and a new error is an end of input. A decoding
  is \<open>sound\<close> on the destinations that satisfy \<open>ok\<close> when it returns on every
  decoder with a budget, without panic, with such a decoder.\<close>

definition reads :: "decoder \<Rightarrow> decoder \<Rightarrow> bool" where
  "reads d d' =
     (0 \<le> remain d' \<and> remain d' \<le> remain d \<and>
      int (length (reader d')) - remain d' = int (length (reader d)) - remain d \<and>
      (err d \<noteq> None \<longrightarrow> d' = d) \<and>
      (err d = None \<longrightarrow> err d' = None \<or> err d' = Some EOF \<or> err d' = Some ErrUnexpectedEOF))"

definition sound :: "decoding \<Rightarrow> (val \<Rightarrow> bool) \<Rightarrow> bool" where
  "sound f ok =
     (\<forall>d v. 0 \<le> remain d \<and> ok v \<longrightarrow> (\<exists>v' d'. f d v = Some (v', d') \<and> ok v' \<and> reads d d'))"

lemma reads_refl: "0 \<le> remain d \<Longrightarrow> reads d d"
  by (cases "err d") (auto simp: reads_def)

lemma reads_trans: "reads d d1 \<Longrightarrow> reads d1 d2 \<Longrightarrow> reads d d2"
  unfolding reads_def by (cases "err d"; cases "err d1") auto

lemma reads_remain: "reads d d' \<Longrightarrow> 0 \<le> remain d'"
  by (simp add: reads_def)

lemma taken_le: "0 \<le> remain d \<Longrightarrow> int (length (taken k d)) \<le> remain d"
  by (simp add: taken_def)

lemma taken_le_reader: "length (taken k d) \<le> length (reader d)"
  by (simp add: taken_def)

lemma reads_advance: "err d = None \<Longrightarrow> 0 \<le> remain d \<Longrightarrow> reads d (advance k d)"
  using taken_le [of d k] taken_le_reader [of k d]
  by (auto simp: reads_def advance_def consume_def readErr_def)

lemma reads_fill: "err d = None \<Longrightarrow> 0 \<le> remain d \<Longrightarrow> reads d (fill k d)"
  using reads_advance [of d k] by (simp add: reads_def fill_def)

lemma readFull_reads:
  "0 \<le> remain d \<Longrightarrow> 0 < k \<Longrightarrow> \<exists>b d'. readFull k d = Some (b, d') \<and> reads d d'"
  by (cases "err d") (auto simp: readFull_ok readFull_failed reads_fill reads_refl)

lemma read_reads:
  "0 \<le> remain d \<Longrightarrow> 0 \<le> n \<Longrightarrow> \<exists>bs d'. read n d = Some (bs, d') \<and> reads d d'"
  by (cases "err d") (auto simp: read_ok read_failed reads_advance reads_refl)

lemma readBool_reads: "0 \<le> remain d \<Longrightarrow> \<exists>x d'. readBool d = Some (x, d') \<and> reads d d'"
  using readFull_reads [of d 1] by (auto simp: readBool_def readByte_def)

lemma readInt8_reads: "0 \<le> remain d \<Longrightarrow> \<exists>x d'. readInt8 d = Some (x, d') \<and> reads d d'"
  using readFull_reads [of d 1] by (auto simp: readInt8_def)

lemma readInt16_reads: "0 \<le> remain d \<Longrightarrow> \<exists>x d'. readInt16 d = Some (x, d') \<and> reads d d'"
  using readFull_reads [of d 2] by (auto simp: readInt16_def)

lemma readInt32_reads: "0 \<le> remain d \<Longrightarrow> \<exists>x d'. readInt32 d = Some (x, d') \<and> reads d d'"
  using readFull_reads [of d 4] by (auto simp: readInt32_def)

lemma readInt64_reads: "0 \<le> remain d \<Longrightarrow> \<exists>x d'. readInt64 d = Some (x, d') \<and> reads d d'"
  using readFull_reads [of d 8] by (auto simp: readInt64_def)

lemma sint_nonneg: "\<not> n <s 0 \<Longrightarrow> 0 \<le> sint n"
  by (simp add: word_sless_alt)

lemma readString_reads:
  assumes "0 \<le> remain d"
  shows "\<exists>x d'. readString d = Some (x, d') \<and> reads d d'"
proof -
  from readInt16_reads [OF assms] obtain n d1 where
    1: "readInt16 d = Some (n, d1)" "reads d d1" by blast
  show ?thesis
  proof (cases "n <s 0")
    case True
    with 1 show ?thesis by (auto simp: readString_def)
  next
    case False
    from read_reads [OF reads_remain [OF 1(2)] sint_nonneg [OF False]] obtain bs d2
      where "read (sint n) d1 = Some (bs, d2)" "reads d1 d2" by blast
    with 1 False show ?thesis by (auto simp: readString_def intro: reads_trans)
  qed
qed

lemma readBytes_reads:
  assumes "0 \<le> remain d"
  shows "\<exists>x d'. readBytes d = Some (x, d') \<and> reads d d'"
proof -
  from readInt32_reads [OF assms] obtain n d1 where
    1: "readInt32 d = Some (n, d1)" "reads d d1" by blast
  show ?thesis
  proof (cases "n <s 0")
    case True
    with 1 show ?thesis by (auto simp: readBytes_def)
  next
    case False
    from read_reads [OF reads_remain [OF 1(2)] sint_nonneg [OF False]] obtain bs d2
      where "read (sint n) d1 = Some (bs, d2)" "reads d1 d2" by blast
    with 1 False show ?thesis by (auto simp: readBytes_def intro: reads_trans)
  qed
qed

lemma sound_prims:
  "sound decodeBool (\<lambda>v. True)" "sound decodeInt8 (\<lambda>v. True)" "sound decodeInt16 (\<lambda>v. True)"
  "sound decodeInt32 (\<lambda>v. True)" "sound decodeInt64 (\<lambda>v. True)"
  "sound decodeString (\<lambda>v. True)" "sound decodeBytes (\<lambda>v. True)"
  unfolding sound_def decodeBool_def decodeInt8_def decodeInt16_def decodeInt32_def
    decodeInt64_def decodeString_def decodeBytes_def
  using readBool_reads readInt8_reads readInt16_reads readInt32_reads readInt64_reads
    readString_reads readBytes_reads
  by (fastforce)+

section \<open>Classic decode functions\<close>

text \<open>A decode function is \<open>classic\<close> when no part of it is compact or flexible: it
  reads no varint and no tag buffer. A destination \<open>fits\<close> a decode function when it
  has a field wherever the function asks for one (so that \<open>fieldByIndex\<close> does not
  panic); the fields of a compiled struct decoder have distinct positions.\<close>

lemma size_decode_field: "f \<in> set fs \<Longrightarrow> size (decode f) < Suc (size_list (size_field size) fs)"
  using size_decode [of f fs "decode f"] by (cases f) simp

function (sequential) classic :: "decodeFunc \<Rightarrow> bool" where
  "classic DecodeCompactString = False"
| "classic DecodeCompactBytes = False"
| "classic (CompactArrayDecode elemType elemFunc) = False"
| "classic (ArrayDecode elemType elemFunc) = classic elemFunc"
| "classic (StructDecode flds taggedFields flexible) =
     (\<not> flexible \<and> (\<forall>f \<in> set flds \<union> set taggedFields. classic (decode f)))"
| "classic f = True"
  by pat_completeness auto
termination
  by (relation "measure size") (auto dest: size_decode_field)

function (sequential) fits :: "decodeFunc \<Rightarrow> val \<Rightarrow> bool" where
  "fits (ArrayDecode elemType elemFunc) v = fits elemFunc (zero elemType)"
| "fits (CompactArrayDecode elemType elemFunc) v = fits elemFunc (zero elemType)"
| "fits (StructDecode flds taggedFields flexible) v =
     (case v of
        VStruct vs \<Rightarrow>
          distinct (map index (flds @ taggedFields)) \<and>
          (\<forall>f \<in> set flds \<union> set taggedFields. index f < length vs \<and> fits (decode f) (vs ! index f))
      | _ \<Rightarrow> False)"
| "fits f v = True"
  by pat_completeness auto
termination
  by (relation "measure (\<lambda>(f, v). size f)") (auto dest: size_decode_field)

lemma decodeElems_sound:
  "sound f ok \<Longrightarrow> 0 \<le> remain d \<Longrightarrow> length a = n \<Longrightarrow> \<forall>x \<in> set a. ok x \<Longrightarrow>
    \<exists>a' d'. decodeElems f i n d a = Some (a', d') \<and> length a' = n \<and> (\<forall>x \<in> set a'. ok x) \<and>
      reads d d'"
proof (induction f i n d a rule: decodeElems.induct)
  case (1 decodeElem i n d a)
  show ?case
  proof (cases "i < n \<and> remain d > 0")
    case False
    with "1.prems" show ?thesis
      by (subst decodeElems.simps) (auto simp: reads_refl)
  next
    case True
    with "1.prems" have "ok (a ! i)" by simp
    with "1.prems"(1,2) obtain x d1 where
      x: "decodeElem d (a ! i) = Some (x, d1)" "ok x" "reads d d1"
      unfolding sound_def by blast
    have "\<forall>y \<in> set (a[i := x]). ok y"
      using "1.prems"(4) x(2) set_update_subset_insert [of a i x] by auto
    with "1.IH" [OF True x(1) refl "1.prems"(1) reads_remain [OF x(3)]] "1.prems"(3)
    obtain a' d' where "decodeElems decodeElem (Suc i) n d1 (a[i := x]) = Some (a', d')"
      "length a' = n" "\<forall>x \<in> set a'. ok x" "reads d1 d'" by auto
    with True x show ?thesis
      by (subst decodeElems.simps) (auto intro: reads_trans)
  qed
qed

lemma decode_in_field: "decode f \<in> set_field f"
  by (cases f) simp

lemma decodeArray_sound:
  assumes f: "sound f ok"
  shows "sound (decodeArray t f) (\<lambda>v. ok (zero t))"
  unfolding sound_def
proof (intro allI impI, elim conjE)
  fix d :: decoder and v :: val
  assume d: "0 \<le> remain d" and z: "ok (zero t)"
  from readInt32_reads [OF d] obtain n d1 where
    1: "readInt32 d = Some (n, d1)" "reads d d1" by blast
  show "\<exists>v' d'. decodeArray t f d v = Some (v', d') \<and> ok (zero t) \<and> reads d d'"
  proof (cases "n <s 0")
    case True
    with 1 z show ?thesis by (auto simp: decodeArray_def)
  next
    case False
    then have n: "0 \<le> sint n" by (rule sint_nonneg)
    let ?a = "replicate (nat (sint n)) (zero t)"
    from decodeElems_sound [OF f reads_remain [OF 1(2)], of ?a "nat (sint n)" 0] z
    obtain a' d' where "decodeElems f 0 (nat (sint n)) d1 ?a = Some (a', d')" "reads d1 d'"
      by auto
    with 1 False n z show ?thesis
      by (auto simp: decodeArray_def makeArray_def intro: reads_trans)
  qed
qed

definition fitsAll :: "decodeFunc field list \<Rightarrow> val list \<Rightarrow> bool" where
  "fitsAll fs vs = (\<forall>g \<in> set fs. index g < length vs \<and> fits (decode g) (vs ! index g))"

lemma decodeField_sound:
  assumes f: "f \<in> set fs" and dist: "distinct (map index fs)" and fit: "fitsAll fs vs"
    and s: "sound (run (decode f)) (fits (decode f))" and d: "0 \<le> remain d"
  shows "\<exists>x d'. decodeField (map_field run f) d (VStruct vs) = Some (VStruct (vs[index f := x]), d') \<and>
     fitsAll fs (vs[index f := x]) \<and> reads d d'"
proof -
  from f fit have i: "index f < length vs" "fits (decode f) (vs ! index f)"
    by (auto simp: fitsAll_def)
  with s d obtain x d' where
    x: "run (decode f) d (vs ! index f) = Some (x, d')" "fits (decode f) x" "reads d d'"
    unfolding sound_def by blast
  have inj: "inj_on index (set fs)" using dist by (simp add: distinct_map)
  have "fitsAll fs (vs[index f := x])"
    unfolding fitsAll_def
  proof (intro ballI conjI)
    fix g assume g: "g \<in> set fs"
    with fit show "index g < length (vs[index f := x])" by (simp add: fitsAll_def)
    show "fits (decode g) (vs[index f := x] ! index g)"
    proof (cases "index g = index f")
      case True
      with inj g f have "g = f" by (auto dest: inj_onD)
      with x(2) i(1) show ?thesis by simp
    next
      case False
      with fit g show ?thesis by (simp add: fitsAll_def)
    qed
  qed
  with x i show ?thesis
    by (cases f) (auto simp: decodeField_def)
qed

lemma decodeFields_sound:
  assumes dist: "distinct (map index all)"
    and s: "\<forall>f \<in> set all. sound (run (decode f)) (fits (decode f))"
  shows "set fs \<subseteq> set all \<Longrightarrow> fitsAll all vs \<Longrightarrow> 0 \<le> remain d \<Longrightarrow>
    \<exists>vs' d'. decodeFields (map (map_field run) fs) d (VStruct vs) = Some (VStruct vs', d') \<and>
      fitsAll all vs' \<and> reads d d'"
proof (induction fs arbitrary: d vs)
  case Nil
  then show ?case by (simp add: reads_refl)
next
  case (Cons f fs)
  then have f: "f \<in> set all" by simp
  from decodeField_sound [OF f dist Cons.prems(2) _ Cons.prems(3)] s f
  obtain x d1 where 1:
    "decodeField (map_field run f) d (VStruct vs) = Some (VStruct (vs[index f := x]), d1)"
    "fitsAll all (vs[index f := x])" "reads d d1" by blast
  from Cons.IH [OF _ 1(2) reads_remain [OF 1(3)]] Cons.prems(1)
  obtain vs' d' where
    "decodeFields (map (map_field run) fs) d1 (VStruct (vs[index f := x])) = Some (VStruct vs', d')"
    "fitsAll all vs'" "reads d1 d'" by auto
  with 1 show ?case by (auto intro: reads_trans)
qed

lemma fits_prims [simp]:
  "fits DecodeBool = (\<lambda>v. True)" "fits DecodeInt8 = (\<lambda>v. True)" "fits DecodeInt16 = (\<lambda>v. True)"
  "fits DecodeInt32 = (\<lambda>v. True)" "fits DecodeInt64 = (\<lambda>v. True)"
  "fits DecodeString = (\<lambda>v. True)" "fits DecodeBytes = (\<lambda>v. True)"
  by (simp_all add: fun_eq_iff)

lemma run_sound: "classic p \<Longrightarrow> sound (run p) (fits p)"
proof (induction p)
  case (ArrayDecode t f)
  then have "sound (run f) (fits f)" by simp
  from decodeArray_sound [OF this, of t] show ?case
    by (simp add: sound_def)
next
  case (StructDecode flds tagged flexible)
  let ?all = "flds @ tagged"
  have s: "\<forall>f \<in> set ?all. sound (run (decode f)) (fits (decode f))"
  proof
    fix f assume f: "f \<in> set ?all"
    with StructDecode decode_in_field [of f] show "sound (run (decode f)) (fits (decode f))" by auto
  qed
  show ?case unfolding sound_def
  proof (intro allI impI, elim conjE)
    fix d :: decoder and v :: val
    assume d: "0 \<le> remain d" and v: "fits (StructDecode flds tagged flexible) v"
    then obtain vs where vs: "v = VStruct vs" "distinct (map index ?all)" "fitsAll ?all vs"
      by (cases v) (auto simp: fitsAll_def)
    from decodeFields_sound [OF vs(2) s _ vs(3) d, of flds]
    obtain vs' d' where
      "decodeFields (map (map_field run) flds) d (VStruct vs) = Some (VStruct vs', d')"
      "fitsAll ?all vs'" "reads d d'" by auto
    with vs StructDecode.prems
    show "\<exists>v' d'. run (StructDecode flds tagged flexible) d v = Some (v', d') \<and>
        fits (StructDecode flds tagged flexible) v' \<and> reads d d'"
      by (auto simp: structDecode_def fitsAll_def)
  qed
qed (simp_all add: sound_prims)

section \<open>What the compiler builds\<close>




lemma collectFields_index:
  "\<forall>k < length fs. \<forall>tag dec. ftype (fs ! k) tag = Some dec \<longrightarrow> R (i + k) dec \<Longrightarrow>
   distinct (map index (flds @ tagged)) \<Longrightarrow>
   \<forall>f \<in> set flds \<union> set tagged. index f < i \<and> R (index f) (decode f) \<Longrightarrow>
   collectFields version i fs (flds, tagged) = Some (flds', tagged') \<Longrightarrow>
   distinct (map index (flds' @ tagged')) \<and>
   (\<forall>f \<in> set flds' \<union> set tagged'. index f < i + length fs \<and> R (index f) (decode f))"
proof (induction fs arbitrary: i flds tagged)
  case Nil
  then show ?case by simp
next
  case (Cons sf fs)
  have tl: "\<forall>k < length fs. \<forall>tag dec. ftype (fs ! k) tag = Some dec \<longrightarrow> R (Suc i + k) dec"
    using Cons.prems(1) by fastforce
  have old: "\<forall>f \<in> set flds \<union> set tagged. index f < Suc i \<and> R (index f) (decode f)"
    using Cons.prems(3) by (blast intro: less_SucI)
  show ?case
  proof (cases "find (applicable version) (ftags sf)")
    case None
    with Cons.prems(4) have "collectFields version (Suc i) fs (flds, tagged) = Some (flds', tagged')"
      by simp
    from Cons.IH [OF tl Cons.prems(2) old this] show ?thesis by simp
  next
    case (Some tag)
    with Cons.prems(4) obtain dec where dec: "ftype sf tag = Some dec"
      by (auto split: option.splits)
    with Cons.prems(1) have R: "R i dec" by fastforce
    have fresh: "i \<notin> index ` (set flds \<union> set tagged)" using Cons.prems(3) by auto
    show ?thesis
    proof (cases "TagID tag < - 1")
      case True
      with Some dec Cons.prems(4) have c:
        "collectFields version (Suc i) fs (flds @ [Field dec i (TagID tag)], tagged) = Some (flds', tagged')"
        by simp
      have "distinct (map index ((flds @ [Field dec i (TagID tag)]) @ tagged))"
        using Cons.prems(2) fresh by auto
      from Cons.IH [OF tl this _ c] old R show ?thesis by simp
    next
      case False
      with Some dec Cons.prems(4) have c:
        "collectFields version (Suc i) fs (flds, Field dec i (TagID tag) # tagged) = Some (flds', tagged')"
        by simp
      have "distinct (map index (flds @ Field dec i (TagID tag) # tagged))"
        using Cons.prems(2) fresh by auto
      from Cons.IH [OF tl this _ c] old R show ?thesis by simp
    qed
  qed
qed

lemma decodeFuncOf_fits:
  "decodeFuncOf t version flexible tag = Some p \<Longrightarrow> fits p (zero t)"
proof (induction t version flexible tag arbitrary: p rule: decodeFuncOf.induct)
  case (7 fs version flexible tag)
  let ?cs = "map (\<lambda>f. SField (\<lambda>t. decodeFuncOf (ftype f) version flexible t) (ftags f)) fs"
  let ?R = "\<lambda>j dec. fits dec (zero (ftype (fs ! j)))"
  from "7.prems" obtain flds tagged where
    c: "collectFields version 0 ?cs ([], []) = Some (flds, tagged)"
    and p: "p = StructDecode flds tagged flexible"
    by (auto simp: structDecodeFuncOf_def split: bind_splits)
  have "\<forall>k < length ?cs. \<forall>tag dec. ftype (?cs ! k) tag = Some dec \<longrightarrow> ?R (0 + k) dec"
    using "7.IH" by auto
  from collectFields_index [where R = ?R, OF this _ _ c]
  have "distinct (map index (flds @ tagged))"
    "\<forall>f \<in> set flds \<union> set tagged. index f < length fs \<and> fits (decode f) (zero (ftype (fs ! index f)))"
    by auto
  then show ?case using p by auto
qed (auto simp: stringDecodeFuncOf_def bytesDecodeFuncOf_def arrayDecodeFuncOf_def
       split: bind_splits)

section \<open>The entry point\<close>

text \<open>The tag \<open>Unmarshal\<close> passes for the root type, and the caches that hold what
  \<open>Unmarshal\<close> stores in them.\<close>

definition rootTag :: structTag where
  "rootTag = \<lparr>MinVersion = - 1, MaxVersion = - 1, TagID = - 2, Compact = True, Nullable = True\<rparr>"

definition cache_ok :: "cache \<Rightarrow> bool" where
  "cache_ok c = (\<forall>t version f. c (t, version) = Some f \<longrightarrow> decodeFuncOf t version False rootTag = Some f)"

lemma Unmarshal_eq:
  assumes "cache_ok cache"
  shows "Unmarshal cache data version typ v =
     (case decodeFuncOf typ version False rootTag of
        None \<Rightarrow> None
      | Some p \<Rightarrow>
          (case run p (newDecoder data) v of
             None \<Rightarrow> None
           | Some (v', d) \<Rightarrow> Some ((dontExpectEOF (err d), v'), cache((typ, version) \<mapsto> p))))"
proof (cases "cache (typ, version)")
  case None
  then show ?thesis
    by (auto simp: Unmarshal_def rootTag_def split: option.splits bind_splits)
next
  case (Some f)
  with assms have f: "decodeFuncOf typ version False rootTag = Some f"
    by (simp add: cache_ok_def)
  have "cache((typ, version) \<mapsto> f) = cache" using Some by (rule map_upd_triv)
  with Some f show ?thesis
    by (auto simp: Unmarshal_def split: option.splits bind_splits)
qed




section \<open>Fields outside the version\<close>

lemma collectFields_applicable:
  "collectFields version i fs (flds, tagged) = Some (flds', tagged') \<Longrightarrow>
   f \<in> set flds' \<union> set tagged' \<Longrightarrow> f \<notin> set flds \<union> set tagged \<Longrightarrow>
   i \<le> index f \<and> index f < i + length fs \<and>
   find (applicable version) (ftags (fs ! (index f - i))) \<noteq> None"
proof (induction fs arbitrary: i flds tagged)
  case Nil
  then show ?case by simp
next
  case (Cons sf fs)
  have later: "i \<le> index f \<and> index f < i + length (sf # fs) \<and>
      find (applicable version) (ftags ((sf # fs) ! (index f - i))) \<noteq> None"
    if "Suc i \<le> index f \<and> index f < Suc i + length fs \<and>
      find (applicable version) (ftags (fs ! (index f - Suc i))) \<noteq> None"
  proof -
    from that have "(sf # fs) ! (index f - i) = fs ! (index f - Suc i)"
      by (simp add: Suc_diff_le)
    with that show ?thesis by simp
  qed
  show ?case
  proof (cases "find (applicable version) (ftags sf)")
    case None
    with Cons.prems(1) have "collectFields version (Suc i) fs (flds, tagged) = Some (flds', tagged')"
      by simp
    from Cons.IH [OF this Cons.prems(2,3)] show ?thesis by (rule later)
  next
    case (Some tag)
    with Cons.prems(1) obtain dec where dec: "ftype sf tag = Some dec"
      by (auto split: option.splits)
    let ?g = "Field dec i (TagID tag)"
    have here: ?thesis if "f = ?g" using that Some by simp
    show ?thesis
    proof (cases "TagID tag < - 1")
      case True
      with Some dec Cons.prems(1) have c:
        "collectFields version (Suc i) fs (flds @ [?g], tagged) = Some (flds', tagged')"
        by simp
      show ?thesis
      proof (cases "f = ?g")
        case True
        then show ?thesis by (rule here)
      next
        case False
        with Cons.prems(3) have "f \<notin> set (flds @ [?g]) \<union> set tagged" by simp
        from Cons.IH [OF c Cons.prems(2) this] show ?thesis by (rule later)
      qed
    next
      case False
      with Some dec Cons.prems(1) have c:
        "collectFields version (Suc i) fs (flds, ?g # tagged) = Some (flds', tagged')"
        by simp
      show ?thesis
      proof (cases "f = ?g")
        case True
        then show ?thesis by (rule here)
      next
        case False
        with Cons.prems(3) have "f \<notin> set flds \<union> set (?g # tagged)" by simp
        from Cons.IH [OF c Cons.prems(2) this] show ?thesis by (rule later)
      qed
    qed
  qed
qed

lemma decodeField_other:
  "decodeField f d (VStruct vs) = Some (v', d') \<Longrightarrow> index f \<noteq> i \<Longrightarrow>
   \<exists>vs'. v' = VStruct vs' \<and> length vs' = length vs \<and> vs' ! i = vs ! i"
  by (auto simp: decodeField_def split: if_splits bind_splits)

lemma decodeFields_other:
  "decodeFields fs d (VStruct vs) = Some (v', d') \<Longrightarrow> i \<notin> index ` set fs \<Longrightarrow>
   \<exists>vs'. v' = VStruct vs' \<and> length vs' = length vs \<and> vs' ! i = vs ! i"
proof (induction fs arbitrary: d vs)
  case Nil
  then show ?case by auto
next
  case (Cons f fs)
  from Cons.prems(1) obtain v1 d1 where
    1: "decodeField f d (VStruct vs) = Some (v1, d1)" "decodeFields fs d1 v1 = Some (v', d')"
    by (auto split: bind_splits)
  from decodeField_other [OF 1(1), of i] Cons.prems(2) obtain vs1 where
    vs1: "v1 = VStruct vs1" "length vs1 = length vs" "vs1 ! i = vs ! i" by auto
  from Cons.IH [of d1 vs1] 1(2) vs1 Cons.prems(2) show ?case by auto
qed

lemma decodeTagged_other:
  assumes "decodeTagged ts d (VStruct vs) = Some (v', d')" "i \<notin> index ` set ts"
  shows "\<exists>vs'. v' = VStruct vs' \<and> length vs' = length vs \<and> vs' ! i = vs ! i"
proof -
  from assms(1) obtain t d1 where 1: "readUnsignedVarInt d = Some (t, d1)"
    by (auto simp: decodeTagged_def split: bind_splits)
  with assms(1) obtain sz d2 where 2: "readUnsignedVarInt d1 = Some (sz, d2)"
    by (auto simp: decodeTagged_def split: bind_splits)
  show ?thesis
  proof (cases "lookupTagged ts (sint t)")
    case None
    with assms(1) 1 2 show ?thesis
      by (auto simp: decodeTagged_def split: bind_splits)
  next
    case (Some f)
    then have "f \<in> set ts" by (auto simp: lookupTagged_def find_Some_iff)
    with assms(2) have "index f \<noteq> i" by auto
    moreover from assms(1) 1 2 Some have "decodeField f d2 (VStruct vs) = Some (v', d')"
      by (simp add: decodeTagged_def)
    ultimately show ?thesis by (auto dest: decodeField_other)
  qed
qed

lemma decodeTaggedLoop_other:
  "decodeTaggedLoop ts k d (VStruct vs) = Some (v', d') \<Longrightarrow> i \<notin> index ` set ts \<Longrightarrow>
   \<exists>vs'. v' = VStruct vs' \<and> length vs' = length vs \<and> vs' ! i = vs ! i"
proof (induction k arbitrary: d vs)
  case 0
  then show ?case by auto
next
  case (Suc k)
  from Suc.prems(1) obtain v1 d1 where
    1: "decodeTagged ts d (VStruct vs) = Some (v1, d1)" "decodeTaggedLoop ts k d1 v1 = Some (v', d')"
    by (auto split: bind_splits)
  from decodeTagged_other [OF 1(1) Suc.prems(2)] obtain vs1 where
    vs1: "v1 = VStruct vs1" "length vs1 = length vs" "vs1 ! i = vs ! i" by auto
  from Suc.IH [of d1 vs1] 1(2) vs1 Suc.prems(2) show ?case by auto
qed

lemma structDecode_other:
  assumes "structDecode fs ts flexible d (VStruct vs) = Some (v', d')"
    "i \<notin> index ` (set fs \<union> set ts)"
  shows "\<exists>vs'. v' = VStruct vs' \<and> length vs' = length vs \<and> vs' ! i = vs ! i"
proof -
  from assms(1) obtain v1 d1 where
    1: "decodeFields fs d (VStruct vs) = Some (v1, d1)"
    by (auto simp: structDecode_def split: bind_splits)
  from decodeFields_other [OF 1, of i] assms(2) obtain vs1 where
    vs1: "v1 = VStruct vs1" "length vs1 = length vs" "vs1 ! i = vs ! i" by auto
  show ?thesis
  proof (cases flexible)
    case False
    with assms(1) 1 vs1 show ?thesis by (auto simp: structDecode_def)
  next
    case True
    with assms(1) 1 obtain n d2 where
      "decodeTaggedLoop ts (nat (sint (n :: 64 word))) d2 v1 = Some (v', d')"
      by (auto simp: structDecode_def split: bind_splits)
    from decodeTaggedLoop_other [of ts _ d2 vs1 v' d' i] this vs1 assms(2) show ?thesis by auto
  qed
qed

text \<open>
  Claim C7. A field of a struct type none of whose tags holds the requested version is
  left out of the compiled struct decoder altogether, from the positional fields and
  from the tagged ones: nothing is read for it, and whatever the decoder then does, the
  destination of that field is left as it was (the zero value, in a fresh value). So
  the struct \<open>{A int32 @0+; B string @1+}\<close> at version 0, from the four bytes of \<open>A\<close>,
  gives \<open>B = ""\<close> and no error.
\<close>

theorem excluded_field:
  assumes "i < length fs"
    and "\<forall>tag \<in> set (ftags (fs ! i)). \<not> applicable version tag"
    and "decodeFuncOf (TStruct fs) version flexible tag0 = Some p"
  shows "(\<exists>flds taggedFields.
            p = StructDecode flds taggedFields flexible \<and>
            i \<notin> index ` (set flds \<union> set taggedFields)) \<and>
         (\<forall>d vs v' d'. run p d (VStruct vs) = Some (v', d') \<longrightarrow>
            (\<exists>vs'. v' = VStruct vs' \<and> length vs' = length vs \<and> vs' ! i = vs ! i))"
proof -
  let ?cs = "map (\<lambda>f. SField (\<lambda>t. decodeFuncOf (ftype f) version flexible t) (ftags f)) fs"
  from assms(3) obtain flds tagged where
    c: "collectFields version 0 ?cs ([], []) = Some (flds, tagged)"
    and p: "p = StructDecode flds tagged flexible"
    by (auto simp: structDecodeFuncOf_def split: bind_splits)
  have none: "find (applicable version) (ftags (?cs ! i)) = None"
    using assms(1,2) by (simp add: find_None_iff)
  have out: "i \<notin> index ` (set flds \<union> set tagged)"
  proof
    assume "i \<in> index ` (set flds \<union> set tagged)"
    then obtain f where f: "f \<in> set flds \<union> set tagged" "index f = i" by auto
    from collectFields_applicable [OF c f(1)] none f(2) assms(1) show False by simp
  qed
  have "\<exists>vs'. v' = VStruct vs' \<and> length vs' = length vs \<and> vs' ! i = vs ! i"
    if "run p d (VStruct vs) = Some (v', d')" for d vs v' d'
  proof -
    have "i \<notin> index ` (set (map (map_field run) flds) \<union> set (map (map_field run) tagged))"
      using out by (auto simp: image_iff field.map_sel)
    moreover from that have "structDecode (map (map_field run) flds) (map (map_field run) tagged)
        flexible d (VStruct vs) = Some (v', d')"
      by (simp add: p)
    ultimately show ?thesis by (rule structDecode_other [rotated])
  qed
  with p out show ?thesis by blast
qed


definition tagFrom :: "16 word \<Rightarrow> structTag" where
  "tagFrom v = \<lparr>MinVersion = v, MaxVersion = 32767, TagID = - 2, Compact = False, Nullable = False\<rparr>"

definition scenarioA :: "gtype sfield list" where
  "scenarioA = [SField TInt32 [tagFrom 0], SField TString [tagFrom 1]]"

lemma scenarioA_plan:
  "decodeFuncOf (TStruct scenarioA) 0 False rootTag = Some (StructDecode [Field DecodeInt32 0 (- 2)] [] False)"
  by (simp add: scenarioA_def tagFrom_def structDecodeFuncOf_def applicable_def word_sle_eq)

theorem excluded_field_witness:
  "1 < length scenarioA \<and> \<not> applicable 0 (tagFrom 1) \<and>
   decodeFuncOf (TStruct scenarioA) 0 False rootTag =
     Some (StructDecode [Field DecodeInt32 0 (- 2)] [] False) \<and>
   Unmarshal Map.empty [0, 0, 0, 5] 0 (TStruct scenarioA) (VStruct [VInt32 0, VString []]) =
     Some ((None, VStruct [VInt32 5, VString []]),
           [(TStruct scenarioA, 0) \<mapsto> StructDecode [Field DecodeInt32 0 (- 2)] [] False])"
proof -
  let ?p = "StructDecode [Field DecodeInt32 0 (- 2)] [] False"
  let ?d = "newDecoder [0, 0, 0, 5]"
  have a: "\<forall>tag \<in> set (ftags (scenarioA ! 1)). \<not> applicable 0 tag"
    by (simp add: scenarioA_def tagFrom_def applicable_def word_sle_eq)
  have r: "run ?p ?d (VStruct [VInt32 0, VString []]) = Some (VStruct [VInt32 5, VString []], fill 4 ?d)"
    by (simp add: structDecode_def decodeField_def decodeInt32_def readInt32_ok eval_read Uint32_def)
  have c: "cache_ok Map.empty" by (simp add: cache_ok_def)
  from excluded_field [OF _ a scenarioA_plan] r
  have "\<exists>vs'. VStruct [VInt32 5, VString []] = VStruct vs' \<and> vs' ! 1 = [VInt32 0, VString []] ! 1"
    by (simp add: scenarioA_def)
  then show ?thesis
    using a r scenarioA_plan
    by (simp add: Unmarshal_eq [OF c] dontExpectEOF_def eval_read scenarioA_def tagFrom_def
          applicable_def word_sle_eq)
qed

section \<open>The tag buffer of a flexible struct\<close>





text \<open>Scenario B of the spec as a whole run: the field with tag 5 is absent from the
  tag buffer and keeps its value; the entry with the unregistered tag 9 and a payload
  of three bytes is skipped, and no error is set.\<close>

lemma scenarioB:
  "\<exists>d'. run (StructDecode [Field DecodeInt32 0 (- 2)] [Field DecodeInt32 1 5] True)
          (newDecoder [0, 0, 0, 7, 1, 9, 3, 0xaa, 0xbb, 0xcc]) (VStruct [VInt32 0, VInt32 0]) =
        Some (VStruct [VInt32 7, VInt32 0], d') \<and> err d' = None \<and> reader d' = [] \<and> remain d' = 0"
proof -
  have n: "nat (sint (1 :: 64 word)) = Suc 0" by simp
  show ?thesis
    by (simp add: structDecode_def decodeField_def decodeInt32_def readInt32_ok Uint32_def
          readUnsignedVarInt_def readUnsignedVarInt_loop_numeral readByte_ok n decodeTagged_def
          lookupTagged_def read_ok eval_read)
qed

section \<open>Arrays that declare more than the frame holds\<close>

definition fixedWidth :: "decodeFunc \<Rightarrow> nat \<Rightarrow> bool" where
  "fixedWidth f w =
     ((f = DecodeBool \<or> f = DecodeInt8) \<and> w = 1 \<or> f = DecodeInt16 \<and> w = 2 \<or>
      f = DecodeInt32 \<and> w = 4 \<or> f = DecodeInt64 \<and> w = 8)"

lemma fixedWidth_step:
  "fixedWidth f w \<Longrightarrow> err d = None \<Longrightarrow> 0 \<le> remain d \<Longrightarrow> \<exists>x. run f d v = Some (x, fill w d)"
  unfolding fixedWidth_def
  by (auto simp: decodeBool_def decodeInt8_def decodeInt16_def decodeInt32_def decodeInt64_def
        readBool_ok readInt8_ok readInt16_ok readInt32_ok readInt64_ok)

lemma fixedWidth_pos: "fixedWidth f w \<Longrightarrow> 0 < w"
  by (auto simp: fixedWidth_def)

lemma fill_whole:
  assumes "err d = None" "remain d \<le> int (length (reader d))" "int w \<le> remain d"
  shows "err (fill w d) = None" "remain (fill w d) = remain d - int w"
    "remain (fill w d) \<le> int (length (reader (fill w d)))"
proof -
  have "w \<le> nat (remain d)" "w \<le> length (reader d)" using assms by simp_all
  then have l: "length (taken w d) = w" by (simp add: taken_def min_def)
  then show "err (fill w d) = None" by (simp add: fill_def advance_def readErr_def)
  show "remain (fill w d) = remain d - int w" using l by (simp add: fill_def advance_def consume_def)
  show "remain (fill w d) \<le> int (length (reader (fill w d)))"
    using l assms by (simp add: fill_def advance_def consume_def)
qed

lemma fill_part:
  assumes "err d = None" "remain d \<le> int (length (reader d))" "0 < remain d" "remain d < int w"
  shows "err (fill w d) = Some ErrUnexpectedEOF" "remain (fill w d) = 0"
proof -
  have "nat (remain d) \<le> length (reader d)" "nat (remain d) < w" using assms by simp_all
  then have l: "length (taken w d) = nat (remain d)" by (simp add: taken_def min_def)
  then have "taken w d \<noteq> []" "length (taken w d) \<noteq> w" using assms by auto
  then show "err (fill w d) = Some ErrUnexpectedEOF" by (simp add: fill_def advance_def readErr_def)
  show "remain (fill w d) = 0" using l assms by (simp add: fill_def advance_def consume_def)
qed

lemma decodeElems_stop: "remain d \<le> 0 \<Longrightarrow> decodeElems g i n d a = Some (a, d)"
  by (subst decodeElems.simps) simp

lemma decodeElems_fixed:
  assumes step: "\<And>d v. err d = None \<Longrightarrow> 0 \<le> remain d \<Longrightarrow> \<exists>x. g d v = Some (x, fill w d)"
    and w: "0 < w"
  shows "err d = None \<Longrightarrow> 0 \<le> remain d \<Longrightarrow> remain d \<le> int (length (reader d)) \<Longrightarrow>
    decodeElems g i n d a = Some (a', d') \<Longrightarrow>
    err d' = (if int ((n - i) * w) \<le> remain d \<or> remain d mod int w = 0 then None
              else Some ErrUnexpectedEOF)"
proof (induction "n - i" arbitrary: i d a)
  case 0
  then have "decodeElems g i n d a = Some (a, d)" by (subst decodeElems.simps) simp
  with 0 show ?case by simp
next
  case (Suc k)
  then have i: "i < n" "k = n - Suc i" by simp_all
  show ?case
  proof (cases "remain d = 0")
    case True
    with Suc.prems show ?thesis by (simp add: decodeElems_stop)
  next
    case False
    with Suc.prems have pos: "0 < remain d" by simp
    from step [OF Suc.prems(1,2)] obtain x where x: "g d (a ! i) = Some (x, fill w d)" by blast
    with i pos Suc.prems(4) have nxt: "decodeElems g (Suc i) n (fill w d) (a[i := x]) = Some (a', d')"
      by (subst (asm) decodeElems.simps) simp
    show ?thesis
    proof (cases "int w \<le> remain d")
      case True
      note f = fill_whole [OF Suc.prems(1,3) True]
      have "0 \<le> remain (fill w d)" using f(2) True by simp
      from Suc.hyps(1) [OF i(2) f(1) this f(3) nxt]
      have "err d' = (if int ((n - Suc i) * w) \<le> remain d - int w \<or> (remain d - int w) mod int w = 0
          then None else Some ErrUnexpectedEOF)"
        by (simp add: f(2))
      moreover have "(int ((n - Suc i) * w) \<le> remain d - int w) = (int ((n - i) * w) \<le> remain d)"
      proof -
        have "n - i = Suc (n - Suc i)" using i by simp
        then show ?thesis by (simp add: algebra_simps)
      qed
      moreover have "(remain d - int w) mod int w = remain d mod int w"
        by (simp add: mod_diff_right_eq [symmetric])
      ultimately show ?thesis by simp
    next
      case False
      then have lt: "remain d < int w" by simp
      note f = fill_part [OF Suc.prems(1,3) pos lt]
      from nxt f(2) have "d' = fill w d" by (simp add: decodeElems_stop)
      moreover have "\<not> int ((n - i) * w) \<le> remain d"
      proof -
        have "int w \<le> int ((n - i) * w)" using i by (cases "n - i") simp_all
        with lt show ?thesis by simp
      qed
      moreover have "remain d mod int w \<noteq> 0" using pos lt by simp
      ultimately show ?thesis using f(1) by simp
    qed
  qed
qed


lemma decodeArray_short:
  assumes f: "classic f" "fits f (zero t)" and d: "0 \<le> remain d"
    and n: "readInt32 d = Some (n, d1)" "\<not> n <s 0"
  shows "\<exists>a d'. run (ArrayDecode t f) d v = Some (VArray (Some a), d') \<and>
      length a = nat (sint n) \<and> reads d d' \<and>
      (\<forall>w. fixedWidth f w \<and> err d1 = None \<and> remain d1 \<le> int (length (reader d1)) \<longrightarrow>
         err d' = (if int (nat (sint n) * w) \<le> remain d1 \<or> remain d1 mod int w = 0 then None
                   else Some ErrUnexpectedEOF))"
proof -
  let ?n = "nat (sint n)"
  let ?a = "replicate ?n (zero t)"
  have s: "sound (run f) (fits f)" using f(1) by (rule run_sound)
  from readInt32_reads [OF d] n(1) have r1: "reads d d1" by auto
  from decodeElems_sound [OF s reads_remain [OF r1], of ?a ?n 0] f(2)
  obtain a' d' where e: "decodeElems (run f) 0 ?n d1 ?a = Some (a', d')" "length a' = ?n"
    "reads d1 d'" by auto
  have "0 \<le> sint n" using n(2) by (rule sint_nonneg)
  with n e have run: "run (ArrayDecode t f) d v = Some (VArray (Some a'), d')"
    by (simp add: decodeArray_def makeArray_def)
  have "err d' = (if int (?n * w) \<le> remain d1 \<or> remain d1 mod int w = 0 then None
                   else Some ErrUnexpectedEOF)"
    if w: "fixedWidth f w" "err d1 = None" "remain d1 \<le> int (length (reader d1))" for w
    using decodeElems_fixed [of "run f" w d1 0 ?n ?a a' d', OF fixedWidth_step [OF w(1)]
        fixedWidth_pos [OF w(1)] w(2) reads_remain [OF r1] w(3) e(1)]
    by simp
  with run e(2) reads_trans [OF r1 e(3)] show ?thesis by blast
qed

text \<open>
  Claim C2, as the code has it. A classic array with a declared count \<open>n \<ge> 0\<close>, whatever
  the budget: the decoder returns, the destination is a slice of the declared length
  \<open>n\<close> (\<open>makeArray\<close> makes all of it, and the slots the loop does not reach keep the
  zero value), the budget does not go below zero and the source loses exactly the bytes
  the budget loses, and the loop decodes no element once the budget is zero. With
  elements of a fixed width \<open>w\<close> (bool, int8, int16, int32, int64) and the frame in the
  source, no error is set when the budget holds all \<open>n\<close> elements or ends at the end of
  an element; when it ends inside an element the error is \<open>io.ErrUnexpectedEOF\<close>.
\<close>

theorem array_beyond_budget:
  assumes "classic f" and "fits f (zero t)" and "0 \<le> remain d"
    and "readInt32 d = Some (n, d1)" and "\<not> n <s 0"
  shows "(\<exists>a d'. run (ArrayDecode t f) d v = Some (VArray (Some a), d') \<and>
            length a = nat (sint n) \<and> reads d d' \<and>
            (\<forall>w. fixedWidth f w \<and> err d1 = None \<and> remain d1 \<le> int (length (reader d1)) \<longrightarrow>
               err d' = (if int (nat (sint n) * w) \<le> remain d1 \<or> remain d1 mod int w = 0 then None
                         else Some ErrUnexpectedEOF))) \<and>
         (\<forall>i a0 d0. remain d0 = 0 \<longrightarrow> decodeElems (run f) i (nat (sint n)) d0 a0 = Some (a0, d0))"
  using decodeArray_short [OF assms] by (simp add: decodeElems_stop)

lemma readInt32_1000:
  "readInt32 (newDecoder (0 # 0 # 3 # 232 # bs)) =
     Some (1000, fill 4 (newDecoder (0 # 0 # 3 # 232 # bs)))"
  by (simp add: readInt32_ok eval_read Uint32_def)

lemma after_1000:
  "err (fill 4 (newDecoder (0 # 0 # 3 # 232 # bs))) = None"
  "remain (fill 4 (newDecoder (0 # 0 # 3 # 232 # bs))) = int (length bs)"
  "reader (fill 4 (newDecoder (0 # 0 # 3 # 232 # bs))) = bs"
  by (simp_all add: eval_read)

lemma newDecoder_budget: "0 \<le> remain (newDecoder bs)"
  by (simp add: newDecoder_def)

theorem array_beyond_budget_witness:
  "\<exists>a d'. run (ArrayDecode TInt8 DecodeInt8) (newDecoder [0, 0, 3, 232, 1, 2, 3, 4, 5, 6, 7, 8, 9, 10])
       (VArray None) = Some (VArray (Some a), d') \<and>
     length a = 1000 \<and> err d' = None \<and> 0 \<le> remain d'"
proof -
  have n: "\<not> (1000 :: 32 word) <s 0" by (simp add: word_sless_alt)
  have c: "classic DecodeInt8" "fits DecodeInt8 (zero TInt8)" by simp_all
  from array_beyond_budget [OF c newDecoder_budget readInt32_1000 n,
      of "[1, 2, 3, 4, 5, 6, 7, 8, 9, 10]" "VArray None"]
  show ?thesis
    by (auto simp: after_1000 fixedWidth_def reads_def)
qed

text \<open>The claim as stated fails on the 4-byte elements of scenario C: a declared count
  of 1000 and 10 bytes left. \<open>Unmarshal\<close> reports \<open>io.ErrUnexpectedEOF\<close>, and the slice it
  leaves has 1000 elements.\<close>

theorem array_beyond_budget_error:
  "\<exists>a c. Unmarshal Map.empty [0, 0, 3, 232, 1, 2, 3, 4, 5, 6, 7, 8, 9, 10] 0 (TSlice TInt32) (VArray None) =
       Some ((Some ErrUnexpectedEOF, VArray (Some a)), c) \<and> length a = 1000"
proof -
  have n: "\<not> (1000 :: 32 word) <s 0" by (simp add: word_sless_alt)
  have c: "classic DecodeInt32" "fits DecodeInt32 (zero TInt32)" by simp_all
  from decodeArray_short [OF c newDecoder_budget readInt32_1000 n,
      of "[1, 2, 3, 4, 5, 6, 7, 8, 9, 10]" "VArray None"]
  obtain a d' where "run (ArrayDecode TInt32 DecodeInt32) (newDecoder [0, 0, 3, 232, 1, 2, 3, 4, 5, 6, 7, 8, 9, 10])
       (VArray None) = Some (VArray (Some a), d')" "length a = 1000" "err d' = Some ErrUnexpectedEOF"
    by (auto simp: after_1000 fixedWidth_def)
  moreover have "cache_ok Map.empty" by (simp add: cache_ok_def)
  ultimately show ?thesis
    by (simp add: Unmarshal_eq arrayDecodeFuncOf_def dontExpectEOF_def)
qed

end
